theory Spec2Isabelle
  imports Main "HOL-Library.AList" "HOL-Library.Multiset" "HOL-Library.Sublist"
begin

section \<open>Data model (src/types/index.ts)\<close>

text \<open>
  All times are minutes from the horizon start. The source computes on JavaScript numbers;
  the model computes on \<open>int\<close>. Timestamps reach the engine as ISO strings and are turned
  into minute offsets by \<open>parseIsoOffset\<close> (date-fns); the model takes the offsets themselves,
  so the input carries \<open>horizon_end\<close>, the calendar bounds and the due dates as offsets from
  \<open>horizon.start\<close>, and the output carries offsets where the source formats timestamps.
  \<open>settings.time_limit_seconds\<close> only fixes the wall-clock deadline; the model takes the
  outcome of each deadline check as a parameter of \<open>schedule\<close> and leaves the setting out.
  Record fields carry a short prefix, since field names are global constants.
\<close>

record NormalizedInterval =
  i_start :: int
  i_end :: int

record Operation =
  op_capability :: string
  duration_minutes :: int

record Resource =
  r_id :: string
  r_capabilities :: "string list"
  r_calendar :: "(int \<times> int) list"

record Product =
  p_id :: string
  p_family :: string
  p_due :: int
  p_route :: "Operation list"

record Input =
  horizon_end :: int
  resources :: "Resource list"
  changeover_matrix_minutes :: "(string \<times> int) list"
  products :: "Product list"

record NormalizedResource =
  nr_id :: string
  nr_capabilities :: "string list"
  nr_calendar :: "NormalizedInterval list"

record NormalizedProduct =
  np_id :: string
  np_family :: string
  np_due :: int
  np_route :: "Operation list"

record SchedulableOperation =
  productId :: string
  productFamily :: string
  stepIndex :: nat
  capability :: string
  duration :: int
  productDue :: int
  earliestStart :: int

record InternalAssignment =
  a_productId :: string
  a_productFamily :: string
  a_stepIndex :: nat
  a_operationName :: string
  a_resource :: string
  a_start :: int
  a_end :: int

record ResourceState =
  lastFamily :: "string option"
  rs_assignments :: "InternalAssignment list"

record Assignment =
  out_product :: string
  out_operation :: string
  out_resource :: string
  out_start :: int
  out_end :: int

record KPIs =
  tardiness_minutes :: int
  changeovers :: nat
  makespan_minutes :: int
  utilization :: "(string \<times> int) list"
  on_time_jobs :: nat
  total_jobs :: nat

text \<open>
  \<open>ScheduleResult\<close> is the union of \<open>SuccessOutput\<close> (version, assignments, kpis) and
  \<open>FailureOutput\<close> (version, error, why). \<open>Threw\<close> stands for an uncaught \<open>TypeError\<close>:
  the source reads a field of the value of a \<open>Map.get\<close> that it asserts to be defined.
\<close>

datatype ScheduleResult =
    SuccessOutput string "Assignment list" KPIs
  | FailureOutput string string "string list"
  | Threw

text \<open>
  Modelled from the spec: the module \<open>constants.js\<close> that exports \<open>SCHEDULER_VERSION\<close> is not
  among the sources; the results "carry a schema version tag", and the earlier copy of the
  routes hard-codes this value.
\<close>

definition SCHEDULER_VERSION :: string where
  "SCHEDULER_VERSION = ''1.0.0''"

section \<open>Array.prototype.sort\<close>

text \<open>
  \<open>xs.sort(cmp)\<close> is stable; \<open>cmp a b \<le> 0\<close> keeps \<open>a\<close> before \<open>b\<close>. For a comparator that
  compares keys the result is determined by stability, and insertion sort computes it.
\<close>

fun insort_by :: "('a \<Rightarrow> 'a \<Rightarrow> int) \<Rightarrow> 'a \<Rightarrow> 'a list \<Rightarrow> 'a list" where
  "insort_by cmp x [] = [x]"
| "insort_by cmp x (y # ys) = (if cmp x y \<le> 0 then x # y # ys else y # insort_by cmp x ys)"

definition sort_by :: "('a \<Rightarrow> 'a \<Rightarrow> int) \<Rightarrow> 'a list \<Rightarrow> 'a list" where
  "sort_by cmp xs = foldr (insort_by cmp) xs []"

section \<open>Interval utilities (src/util/timeUtils.ts)\<close>

definition parseCalendarWindows :: "(int \<times> int) list \<Rightarrow> NormalizedInterval list" where
  "parseCalendarWindows calendar =
     sort_by (\<lambda>a b. i_start a - i_start b)
       (map (\<lambda>(s, e). \<lparr>i_start = s, i_end = e\<rparr>) calendar)"

definition doIntervalsOverlap :: "NormalizedInterval \<Rightarrow> NormalizedInterval \<Rightarrow> bool" where
  "doIntervalsOverlap a b \<longleftrightarrow> i_start a < i_end b \<and> i_start b < i_end a"

text \<open>
  The loop of \<open>combineOverlappingIntervals\<close>: \<open>combined\<close> is never empty here, \<open>current\<close>
  runs over \<open>sorted[1..]\<close>.
\<close>

fun combine_loop :: "NormalizedInterval list \<Rightarrow> NormalizedInterval list \<Rightarrow> NormalizedInterval list" where
  "combine_loop combined [] = combined"
| "combine_loop combined (current # rest) =
     (let lst = last combined in
      if i_start current \<le> i_end lst
      then combine_loop
             (butlast combined @ [\<lparr>i_start = i_start lst, i_end = max (i_end lst) (i_end current)\<rparr>])
             rest
      else combine_loop (combined @ [current]) rest)"

definition combineOverlappingIntervals :: "NormalizedInterval list \<Rightarrow> NormalizedInterval list" where
  "combineOverlappingIntervals intervals =
     (if intervals = [] then []
      else let sorted = sort_by (\<lambda>a b. i_start a - i_start b) intervals
           in combine_loop [hd sorted] (tl sorted))"

definition isWithinCalendarWindow :: "int \<Rightarrow> int \<Rightarrow> NormalizedInterval list \<Rightarrow> bool" where
  "isWithinCalendarWindow s e calendar \<longleftrightarrow>
     list_ex (\<lambda>window. s \<ge> i_start window \<and> e \<le> i_end window) calendar"


section \<open>Template literals\<close>

text \<open>
  \<open>`${n}`\<close> for an integral number is its decimal numeral, with a leading minus sign for a
  negative one (numbers of magnitude \<open>10^21\<close> and above, which the source would print in
  exponent form, are outside the minute offsets considered here).
\<close>

fun show_nat :: "nat \<Rightarrow> string" where
  "show_nat n =
     (if n < 10 then [char_of (48 + n)]
      else show_nat (n div 10) @ [char_of (48 + n mod 10)])"

declare show_nat.simps [simp del]

definition show_int :: "int \<Rightarrow> string" where
  "show_int i = (if i < 0 then ''-'' @ show_nat (nat (- i)) else show_nat (nat i))"

section \<open>The scheduling engine (src/core/scheduler.ts)\<close>

subsection \<open>normalizeInput\<close>

text \<open>
  A JavaScript \<open>Map\<close> is an association list in insertion order: \<open>set\<close> on a present key
  replaces the value in place (\<open>AList.update\<close>), \<open>get\<close> is \<open>map_of\<close>.
\<close>

record Normalized =
  horizonEnd :: int
  n_resources :: "(string \<times> NormalizedResource) list"
  n_products :: "NormalizedProduct list"
  changeoverMatrix :: "(string \<times> int) list"

definition normalizeCalendar :: "int \<Rightarrow> (int \<times> int) list \<Rightarrow> NormalizedInterval list" where
  "normalizeCalendar hEnd calendar =
     (let raw = parseCalendarWindows calendar
      in filter (\<lambda>w. i_end w > i_start w)
           (map (\<lambda>w. \<lparr>i_start = max 0 (i_start w), i_end = min hEnd (i_end w)\<rparr>)
              (combineOverlappingIntervals raw)))"

definition normalizeInput :: "Input \<Rightarrow> Normalized" where
  "normalizeInput input =
     (let hEnd = horizon_end input
      in \<lparr>horizonEnd = hEnd,
          n_resources =
            fold (\<lambda>r m. AList.update (r_id r)
                    \<lparr>nr_id = r_id r, nr_capabilities = r_capabilities r,
                     nr_calendar = normalizeCalendar hEnd (r_calendar r)\<rparr> m)
              (resources input) [],
          n_products =
            map (\<lambda>p. \<lparr>np_id = p_id p, np_family = p_family p, np_due = p_due p,
                       np_route = p_route p\<rparr>) (products input),
          changeoverMatrix = changeover_matrix_minutes input\<rparr>)"

subsection \<open>buildOperationsList\<close>

definition productOperations :: "NormalizedProduct \<Rightarrow> SchedulableOperation list" where
  "productOperations product =
     map (\<lambda>k. let op = np_route product ! k
               in \<lparr>productId = np_id product, productFamily = np_family product,
                   stepIndex = k, capability = op_capability op,
                   duration = duration_minutes op, productDue = np_due product,
                   earliestStart = 0\<rparr>)
       [0..<length (np_route product)]"

definition buildOperationsList :: "NormalizedProduct list \<Rightarrow> SchedulableOperation list" where
  "buildOperationsList prods = concat (map productOperations prods)"

subsection \<open>selectNextOperation\<close>

definition getOrEmpty :: "(string \<times> 'a list) list \<Rightarrow> string \<Rightarrow> 'a list" where
  "getOrEmpty m k = (case map_of m k of None \<Rightarrow> [] | Some l \<Rightarrow> l)"

definition isReady :: "(string \<times> InternalAssignment list) list \<Rightarrow> SchedulableOperation \<Rightarrow> bool" where
  "isReady assignments op =
     (if stepIndex op = 0 then True
      else let productAssignments = getOrEmpty assignments (productId op);
               priorStep = find (\<lambda>a. a_stepIndex a = stepIndex op - 1) productAssignments
           in priorStep \<noteq> None)"

text \<open>
  \<open>productsMap.get(a.productId)!.route\<close>: the source throws a \<open>TypeError\<close> when the product is
  not in the map. The comparator runs inside \<open>sort\<close>, on pairs the engine chooses, so the
  model's lookup is total (the empty route for an unknown product) and the statement
  about \<open>selectNextOperation\<close> assumes the products of the pool to be in the map. In
  \<open>schedule\<close> they always are: map and pool are built from the same products (lemma
  \<open>pool_products_known\<close> below).
\<close>

definition routeOf :: "(string \<times> NormalizedProduct) list \<Rightarrow> string \<Rightarrow> Operation list" where
  "routeOf productsMap pid = (case map_of productsMap pid of None \<Rightarrow> [] | Some p \<Rightarrow> np_route p)"

definition remaining :: "(string \<times> NormalizedProduct) list \<Rightarrow> SchedulableOperation \<Rightarrow> int" where
  "remaining productsMap a =
     fold (\<lambda>op sum. sum + duration_minutes op) (drop (stepIndex a) (routeOf productsMap (productId a))) 0"

definition slack :: "(string \<times> NormalizedProduct) list \<Rightarrow> SchedulableOperation \<Rightarrow> int" where
  "slack productsMap a = productDue a - earliestStart a - remaining productsMap a"

definition compareOps ::
  "(string \<times> NormalizedProduct) list \<Rightarrow> SchedulableOperation \<Rightarrow> SchedulableOperation \<Rightarrow> int" where
  "compareOps productsMap a b =
     (if productDue a \<noteq> productDue b then productDue a - productDue b
      else let slackA = slack productsMap a; slackB = slack productsMap b
           in if slackA \<noteq> slackB then slackA - slackB
              else duration a - duration b)"

definition selectNextOperation ::
  "SchedulableOperation list \<Rightarrow> (string \<times> InternalAssignment list) list \<Rightarrow>
   (string \<times> NormalizedProduct) list \<Rightarrow> SchedulableOperation option" where
  "selectNextOperation pool assignments productsMap =
     (let ready = filter (isReady assignments) pool
      in if ready = [] then None
         else Some (hd (sort_by (compareOps productsMap) ready)))"

subsection \<open>getEligibleResources, getChangeoverTime\<close>

definition getEligibleResources ::
  "SchedulableOperation \<Rightarrow> (string \<times> NormalizedResource) list \<Rightarrow> NormalizedResource list" where
  "getEligibleResources operation rs =
     filter (\<lambda>resource. capability operation \<in> set (nr_capabilities resource)) (map snd rs)"

text \<open>\<open>!lastFamily\<close> holds for \<open>null\<close> and for the empty string.\<close>

definition getChangeoverTime :: "string option \<Rightarrow> string \<Rightarrow> (string \<times> int) list \<Rightarrow> int" where
  "getChangeoverTime lastFam nextFamily matrix =
     (case lastFam of
        None \<Rightarrow> 0
      | Some f \<Rightarrow>
          if f = [] then 0
          else (case map_of matrix (f @ ''->'' @ nextFamily) of None \<Rightarrow> 0 | Some v \<Rightarrow> v))"

subsection \<open>tryPlaceOperation\<close>

record Placement =
  pl_resource :: string
  pl_start :: int
  pl_end :: int

record Near =
  near_resource :: string
  near_reason :: string

text \<open>
  The variables of the search. \<open>Infinity\<close>, the initial value of \<open>bestProjectedTardiness\<close>
  and \<open>earliestEnd\<close>, is \<open>None\<close>.
\<close>

record Search =
  bestPlacement :: "Placement option"
  bestProjectedTardiness :: "int option"
  earliestEnd :: "int option"
  bestNear :: "Near option"
  largestGap :: int

definition lessInf :: "int \<Rightarrow> int option \<Rightarrow> bool" where
  "lessInf x b = (case b of None \<Rightarrow> True | Some v \<Rightarrow> x < v)"

definition tryGap ::
  "SchedulableOperation \<Rightarrow> string \<Rightarrow> InternalAssignment list \<Rightarrow> (string \<times> int) list \<Rightarrow>
   NormalizedInterval \<Rightarrow> nat \<Rightarrow> Search \<Rightarrow> Search" where
  "tryGap operation rid assigned matrix window i s =
     (let prevAssignment = (if i = 0 then None else Some (assigned ! (i - 1)));
          nextAssignment = (if i < length assigned then Some (assigned ! i) else None);
          gapStart = max (earliestStart operation)
                       (case prevAssignment of Some p \<Rightarrow> a_end p | None \<Rightarrow> i_start window);
          gapEnd = min (i_end window)
                     (case nextAssignment of Some n \<Rightarrow> a_start n | None \<Rightarrow> i_end window)
      in if gapEnd \<le> gapStart then s
         else
           let prevFamily = map_option a_productFamily prevAssignment;
               changeoverTime = getChangeoverTime prevFamily (productFamily operation) matrix;
               start = gapStart + changeoverTime;
               end = start + duration operation
           in if start \<ge> gapStart \<and> end \<le> gapEnd
              then
                let projectedTardiness = max 0 (end - productDue operation)
                in if lessInf projectedTardiness (bestProjectedTardiness s) \<or>
                      (bestProjectedTardiness s = Some projectedTardiness \<and> lessInf end (earliestEnd s))
                   then s\<lparr>bestProjectedTardiness := Some projectedTardiness,
                          earliestEnd := Some end,
                          bestPlacement := Some \<lparr>pl_resource = rid, pl_start = start, pl_end = end\<rparr>\<rparr>
                   else s
              else
                let gap = gapEnd - gapStart;
                    needed = changeoverTime + duration operation
                in if gap > largestGap s
                   then s\<lparr>largestGap := gap,
                          bestNear := Some \<lparr>near_resource = rid,
                            near_reason = ''largest gap '' @ show_int gap @ ''min < needed '' @
                              show_int needed @ ''min (changeover '' @ show_int changeoverTime @
                              ''min)''\<rparr>\<rparr>
                   else s)"

definition tryWindow ::
  "SchedulableOperation \<Rightarrow> string \<Rightarrow> InternalAssignment list \<Rightarrow> (string \<times> int) list \<Rightarrow>
   NormalizedInterval \<Rightarrow> Search \<Rightarrow> Search" where
  "tryWindow operation rid assigned matrix window s =
     (if i_end window \<le> earliestStart operation then s
      else fold (tryGap operation rid assigned matrix window) [0..<Suc (length assigned)] s)"

text \<open>
  The loop over the eligible resources. \<open>resourceStates.get(resource.id)!\<close> followed by
  \<open>state.assignments\<close> throws when the resource has no state: \<open>None\<close>.
\<close>

fun tryResources ::
  "SchedulableOperation \<Rightarrow> NormalizedResource list \<Rightarrow> (string \<times> ResourceState) list \<Rightarrow>
   (string \<times> int) list \<Rightarrow> Search \<Rightarrow> Search option" where
  "tryResources operation [] rstates matrix s = Some s"
| "tryResources operation (resource # rest) rstates matrix s =
     (case map_of rstates (nr_id resource) of
        None \<Rightarrow> None
      | Some state \<Rightarrow>
          tryResources operation rest rstates matrix
            (fold (tryWindow operation (nr_id resource) (rs_assignments state) matrix)
               (nr_calendar resource) s))"

definition tryPlaceOperation ::
  "SchedulableOperation \<Rightarrow> NormalizedResource list \<Rightarrow> (string \<times> ResourceState) list \<Rightarrow>
   (string \<times> int) list \<Rightarrow> (Placement option \<times> Near option) option" where
  "tryPlaceOperation operation eligibleResources rstates matrix =
     map_option (\<lambda>s. (bestPlacement s, bestNear s))
       (tryResources operation eligibleResources rstates matrix
          \<lparr>bestPlacement = None, bestProjectedTardiness = None, earliestEnd = None,
           bestNear = None, largestGap = 0\<rparr>)"

subsection \<open>updateResourceState\<close>

definition updateResourceState :: "ResourceState \<Rightarrow> InternalAssignment \<Rightarrow> ResourceState" where
  "updateResourceState state assignment =
     \<lparr>lastFamily = Some (a_productFamily assignment),
      rs_assignments =
        sort_by (\<lambda>a b. a_start a - a_start b) (rs_assignments state @ [assignment])\<rparr>"


subsection \<open>computeChangeoverMinutesPerResource, denormalizeResult\<close>

definition matrixEntry :: "(string \<times> int) list \<Rightarrow> string \<Rightarrow> string \<Rightarrow> int" where
  "matrixEntry matrix prevFam nextFam =
     (case map_of matrix (prevFam @ ''->'' @ nextFam) of None \<Rightarrow> 0 | Some v \<Rightarrow> v)"

definition changeoverMinutesOf :: "InternalAssignment list \<Rightarrow> (string \<times> int) list \<Rightarrow> int" where
  "changeoverMinutesOf lst matrix =
     (let sorted = sort_by (\<lambda>a b. a_start a - a_start b) lst
      in fold (\<lambda>(p, n) total.
                 if a_productFamily p \<noteq> a_productFamily n
                 then total + matrixEntry matrix (a_productFamily p) (a_productFamily n)
                 else total)
           (zip sorted (tl sorted)) 0)"

definition computeChangeoverMinutesPerResource ::
  "(string \<times> InternalAssignment list) list \<Rightarrow> (string \<times> int) list \<Rightarrow> (string \<times> int) list" where
  "computeChangeoverMinutesPerResource resourceMap matrix =
     map (\<lambda>(rid, lst). (rid, changeoverMinutesOf lst matrix)) resourceMap"

definition countChangeovers :: "InternalAssignment list \<Rightarrow> nat" where
  "countChangeovers lst =
     (let sorted = sort_by (\<lambda>a b. a_start a - a_start b) lst
      in length (filter (\<lambda>(p, n). a_productFamily p \<noteq> a_productFamily n) (zip sorted (tl sorted))))"

text \<open>
  \<open>Math.round((busyTime / d) * 100)\<close> for \<open>d \<ge> 1\<close>, computed exactly (the source computes
  in doubles): the nearest integer, a half rounded up.
\<close>

definition roundPercent :: "int \<Rightarrow> int \<Rightarrow> int" where
  "roundPercent busyTime d = (200 * busyTime + d) div (2 * d)"

definition outputAssignment :: "InternalAssignment \<Rightarrow> Assignment" where
  "outputAssignment a =
     \<lparr>out_product = a_productId a, out_operation = a_operationName a,
      out_resource = a_resource a, out_start = a_start a, out_end = a_end a\<rparr>"

definition getOrZero :: "(string \<times> int) list \<Rightarrow> string \<Rightarrow> int" where
  "getOrZero m k = (case map_of m k of None \<Rightarrow> 0 | Some v \<Rightarrow> v)"

definition denormalizeResult ::
  "InternalAssignment list \<Rightarrow> NormalizedProduct list \<Rightarrow> (string \<times> NormalizedResource) list \<Rightarrow>
   (string \<times> int) list \<Rightarrow> ScheduleResult" where
  "denormalizeResult asg prods rs matrix =
     (let sortedAssignments = sort_by (\<lambda>a b. a_start a - a_start b) asg;
          outputAssignments = map outputAssignment sortedAssignments;
          productCompletions =
            fold (\<lambda>a m. let current = getOrZero m (a_productId a)
                         in AList.update (a_productId a) (max current (a_end a)) m) asg [];
          tardinessOf = (\<lambda>product.
            let completion = getOrZero productCompletions (np_id product)
            in max 0 (completion - np_due product));
          totalTardiness = fold (\<lambda>product t. t + tardinessOf product) prods 0;
          onTimeJobs = length (filter (\<lambda>product. tardinessOf product = 0) prods);
          resourceMap =
            fold (\<lambda>a m. AList.update (a_resource a) (getOrEmpty m (a_resource a) @ [a]) m) asg [];
          changeoverMinutesByRes = computeChangeoverMinutesPerResource resourceMap matrix;
          resourceUtilization =
            map (\<lambda>(resourceId, resource).
                   let availableMinutes =
                         fold (\<lambda>window sum. sum + (i_end window - i_start window))
                           (nr_calendar resource) 0;
                       resourceAssignments = getOrEmpty resourceMap resourceId;
                       busyTime =
                         fold (\<lambda>a sum. sum + (a_end a - a_start a)) resourceAssignments 0 +
                         getOrZero changeoverMinutesByRes resourceId
                   in (resourceId, roundPercent busyTime (max availableMinutes 1))) rs;
          nChangeovers = fold (\<lambda>(rid, lst) c. c + countChangeovers lst) resourceMap 0;
          maxEnd = fold (\<lambda>a m. max m (a_end a)) asg 0;
          makespan =
            (case asg of
               [] \<Rightarrow> 0
             | a # rest \<Rightarrow> maxEnd - fold (\<lambda>a m. min m (a_start a)) rest (a_start a))
      in SuccessOutput SCHEDULER_VERSION outputAssignments
           \<lparr>tardiness_minutes = totalTardiness, changeovers = nChangeovers,
            makespan_minutes = makespan, utilization = resourceUtilization,
            on_time_jobs = onTimeJobs, total_jobs = length prods\<rparr>)"

subsection \<open>schedule: the driving loop\<close>

record LoopState =
  unscheduled :: "SchedulableOperation list"
  assignments :: "(string \<times> InternalAssignment list) list"
  allAssignments :: "InternalAssignment list"
  resourceStates :: "(string \<times> ResourceState) list"
  iteration :: nat

text \<open>Assignment to a field of the first element that satisfies \<open>P\<close> (\<open>find\<close>, then a write).\<close>

fun updateFirst :: "('a \<Rightarrow> bool) \<Rightarrow> ('a \<Rightarrow> 'a) \<Rightarrow> 'a list \<Rightarrow> 'a list" where
  "updateFirst P f [] = []"
| "updateFirst P f (x # xs) = (if P x then f x # xs else x # updateFirst P f xs)"

fun findIndex :: "('a \<Rightarrow> bool) \<Rightarrow> 'a list \<Rightarrow> int" where
  "findIndex P [] = - 1"
| "findIndex P (x # xs) =
     (if P x then 0 else let r = findIndex P xs in if r < 0 then - 1 else r + 1)"

text \<open>\<open>xs.splice(index, 1)\<close>: a negative index counts from the end.\<close>

definition splice1 :: "int \<Rightarrow> 'a list \<Rightarrow> 'a list" where
  "splice1 index xs =
     (let n = int (length xs);
          k = (if index < 0 then max (n + index) 0 else min index n)
      in take (nat k) xs @ drop (Suc (nat k)) xs)"

text \<open>Lines 407 to 415: the selected operation starts no earlier than its prior step ends.\<close>

definition withPriorStep ::
  "(string \<times> InternalAssignment list) list \<Rightarrow> SchedulableOperation \<Rightarrow> SchedulableOperation" where
  "withPriorStep asgs nextOp =
     (if stepIndex nextOp > 0
      then (case find (\<lambda>a. a_stepIndex a = stepIndex nextOp - 1)
                   (getOrEmpty asgs (productId nextOp)) of
              Some priorStep \<Rightarrow> nextOp\<lparr>earliestStart := a_end priorStep\<rparr>
            | None \<Rightarrow> nextOp)
      else nextOp)"

definition opLabel :: "SchedulableOperation \<Rightarrow> string" where
  "opLabel nextOp =
     ''Product '' @ productId nextOp @ '', step '' @ show_nat (stepIndex nextOp) @
     '' ('' @ capability nextOp @ ''): ''"

text \<open>The dash of the "Closest" line is U+2014, here its three UTF-8 bytes.\<close>

definition closestLine :: "Near \<Rightarrow> string" where
  "closestLine bn =
     ''Closest: '' @ near_resource bn @ '' '' @ [char_of (226::nat), char_of (128::nat), char_of (148::nat)] @
     '' '' @ near_reason bn"

text \<open>
  One iteration of \<open>while (unscheduled.length > 0)\<close>: \<open>Inl\<close> is a \<open>return\<close> from \<open>schedule\<close>,
  \<open>Inr\<close> the state at the end of the body. \<open>deadlinePassed k\<close> is the outcome of
  \<open>Date.now() > deadline\<close> at the top of the iteration whose counter is \<open>k\<close>. The selected
  operation is an object of the pool: the write to its \<open>earliestStart\<close> is a write to the
  first element of the pool equal to it (the stable sort returns the first of equal
  operations).
\<close>

definition loopBody ::
  "(nat \<Rightarrow> bool) \<Rightarrow> Normalized \<Rightarrow> (string \<times> NormalizedProduct) list \<Rightarrow> nat \<Rightarrow>
   LoopState \<Rightarrow> ScheduleResult + LoopState" where
  "loopBody deadlinePassed normalized productsMap maxIterations st =
     (if deadlinePassed (iteration st)
      then Inl (FailureOutput SCHEDULER_VERSION ''Time limit exceeded''
                  [''settings.time_limit_seconds reached before completing schedule''])
      else if iteration st > maxIterations
      then Inl (FailureOutput SCHEDULER_VERSION ''Scheduler stuck in infinite loop''
                  [''Maximum iterations exceeded''])
      else
        case selectNextOperation (unscheduled st) (assignments st) productsMap of
          None \<Rightarrow>
            Inl (FailureOutput SCHEDULER_VERSION ''No ready operations available''
                   [''Precedence deadlock detected''])
        | Some selected \<Rightarrow>
            let nextOp = withPriorStep (assignments st) selected;
                pool1 = updateFirst (\<lambda>u. u = selected) (\<lambda>_. nextOp) (unscheduled st);
                eligible = getEligibleResources nextOp (n_resources normalized)
            in if eligible = []
               then Inl (FailureOutput SCHEDULER_VERSION ''No eligible resources''
                           [opLabel nextOp @ ''No resource has required capability''])
               else
                 case tryPlaceOperation nextOp eligible (resourceStates st)
                        (changeoverMatrix normalized) of
                   None \<Rightarrow> Inl Threw
                 | Some (placement, near) \<Rightarrow>
                     (case placement of
                        None \<Rightarrow>
                          Inl (FailureOutput SCHEDULER_VERSION ''Cannot place operation''
                                 ((opLabel nextOp @
                                     ''No available time slot found on eligible resources'') #
                                  (case near of None \<Rightarrow> [] | Some bn \<Rightarrow> [closestLine bn])))
                      | Some pl \<Rightarrow>
                          if pl_end pl > horizonEnd normalized
                          then Inl (FailureOutput SCHEDULER_VERSION ''Horizon exceeded''
                                      [opLabel nextOp @ ''would end at '' @ show_int (pl_end pl) @
                                       '' min, beyond horizon '' @
                                       show_int (horizonEnd normalized) @ '' min''])
                          else
                            let assignment =
                                  \<lparr>a_productId = productId nextOp,
                                   a_productFamily = productFamily nextOp,
                                   a_stepIndex = stepIndex nextOp,
                                   a_operationName = capability nextOp,
                                   a_resource = pl_resource pl,
                                   a_start = pl_start pl, a_end = pl_end pl\<rparr>
                            in case map_of (resourceStates st) (pl_resource pl) of
                                 None \<Rightarrow> Inl Threw
                               | Some resourceState \<Rightarrow>
                                   let pool2 =
                                         updateFirst
                                           (\<lambda>u. productId u = productId nextOp \<and>
                                                 stepIndex u = stepIndex nextOp + 1)
                                           (\<lambda>u. u\<lparr>earliestStart :=
                                                     max (earliestStart u) (a_end assignment)\<rparr>)
                                           pool1;
                                       index =
                                         findIndex
                                           (\<lambda>op. productId op = productId nextOp \<and>
                                                  stepIndex op = stepIndex nextOp)
                                           pool2
                                   in Inr \<lparr>unscheduled = splice1 index pool2,
                                           assignments =
                                             AList.update (productId nextOp)
                                               (getOrEmpty (assignments st) (productId nextOp) @
                                                  [assignment])
                                               (assignments st),
                                           allAssignments = allAssignments st @ [assignment],
                                           resourceStates =
                                             AList.update (pl_resource pl)
                                               (updateResourceState resourceState assignment)
                                               (resourceStates st),
                                           iteration = Suc (iteration st)\<rparr>))"

lemma findIndex_range: "- 1 \<le> findIndex P xs \<and> findIndex P xs < int (length xs)"
  by (induction xs) (auto simp: Let_def)

lemma length_splice1_findIndex:
  "xs \<noteq> [] \<Longrightarrow> length (splice1 (findIndex P xs) xs) < length xs"
proof -
  assume ne: "xs \<noteq> []"
  then have pos: "0 < length xs" by simp
  let ?n = "int (length xs)"
  let ?i = "findIndex P xs"
  let ?k = "if ?i < 0 then max (?n + ?i) 0 else min ?i ?n"
  have "0 \<le> ?k \<and> ?k < ?n"
    using findIndex_range [of P xs] pos by (auto simp: max_def min_def)
  then have "nat ?k < length xs" by linarith
  then show ?thesis
    by (simp add: splice1_def Let_def del: of_nat_less_iff)
qed

lemma length_updateFirst [simp]: "length (updateFirst P f xs) = length xs"
  by (induction xs) auto

lemma loopBody_decreases:
  assumes "loopBody dp nz pm mx st = Inr st'" and "unscheduled st \<noteq> []"
  shows "length (unscheduled st') < length (unscheduled st)"
proof -
  from assms(1) obtain P Q f g sel where
    "unscheduled st' = splice1 (findIndex P (updateFirst Q f (updateFirst (\<lambda>u. u = sel) g (unscheduled st))))
        (updateFirst Q f (updateFirst (\<lambda>u. u = sel) g (unscheduled st)))"
    unfolding loopBody_def
    by (auto simp: Let_def split: if_splits option.splits prod.splits)
  moreover have "updateFirst Q f (updateFirst (\<lambda>u. u = sel) g (unscheduled st)) \<noteq> []"
    using assms(2) by (metis length_updateFirst length_0_conv)
  ultimately show ?thesis
    using length_splice1_findIndex [of "updateFirst Q f (updateFirst (\<lambda>u. u = sel) g (unscheduled st))" P]
    by simp
qed

function drivingLoop ::
  "(nat \<Rightarrow> bool) \<Rightarrow> Normalized \<Rightarrow> (string \<times> NormalizedProduct) list \<Rightarrow> nat \<Rightarrow>
   LoopState \<Rightarrow> ScheduleResult + LoopState" where
  "drivingLoop dp nz pm mx st =
     (if unscheduled st = [] then Inr st
      else case loopBody dp nz pm mx st of
             Inl r \<Rightarrow> Inl r
           | Inr st' \<Rightarrow> drivingLoop dp nz pm mx st')"
  by pat_completeness auto
termination
  by (relation "measure (\<lambda>(dp, nz, pm, mx, st). length (unscheduled st))")
     (auto dest: loopBody_decreases)

declare drivingLoop.simps [simp del]

subsection \<open>schedule: the final validation and the result\<close>

fun firstOverlap :: "InternalAssignment list \<Rightarrow> (InternalAssignment \<times> InternalAssignment) option" where
  "firstOverlap (p # n # rest) =
     (if a_start n < a_end p then Some (p, n) else firstOverlap (n # rest))"
| "firstOverlap _ = None"

fun validateNoOverlap :: "(string \<times> ResourceState) list \<Rightarrow> ScheduleResult option" where
  "validateNoOverlap [] = None"
| "validateNoOverlap ((rid, state) # rest) =
     (case firstOverlap (sort_by (\<lambda>a b. a_start a - a_start b) (rs_assignments state)) of
        Some (p, n) \<Rightarrow>
          Some (FailureOutput SCHEDULER_VERSION ''Validation failed: overlap detected''
                  [''Resource '' @ rid @ '': overlap between assignments at '' @
                   show_int (a_start p) @ ''-'' @ show_int (a_end p) @ '' and '' @
                   show_int (a_start n) @ ''-'' @ show_int (a_end n)])
      | None \<Rightarrow> validateNoOverlap rest)"

definition productsMapOf :: "NormalizedProduct list \<Rightarrow> (string \<times> NormalizedProduct) list" where
  "productsMapOf prods = fold (\<lambda>p m. AList.update (np_id p) p m) prods []"

definition initialState :: "Normalized \<Rightarrow> LoopState" where
  "initialState normalized =
     \<lparr>unscheduled = buildOperationsList (n_products normalized),
      assignments = [],
      allAssignments = [],
      resourceStates =
        map (\<lambda>rid. (rid, \<lparr>lastFamily = None, rs_assignments = []\<rparr>))
          (map fst (n_resources normalized)),
      iteration = 0\<rparr>"

text \<open>The run of the driving loop of \<open>schedule\<close> on an input, from the initial state.\<close>

definition runLoop :: "(nat \<Rightarrow> bool) \<Rightarrow> Input \<Rightarrow> ScheduleResult + LoopState" where
  "runLoop deadlinePassed input =
     (let normalized = normalizeInput input
      in drivingLoop deadlinePassed normalized (productsMapOf (n_products normalized))
           (length (buildOperationsList (n_products normalized)) * 5)
           (initialState normalized))"

definition schedule :: "(nat \<Rightarrow> bool) \<Rightarrow> Input \<Rightarrow> ScheduleResult" where
  "schedule deadlinePassed input =
     (let normalized = normalizeInput input
      in if n_products normalized = []
         then SuccessOutput SCHEDULER_VERSION []
                \<lparr>tardiness_minutes = 0, changeovers = 0, makespan_minutes = 0,
                 utilization = [], on_time_jobs = 0, total_jobs = 0\<rparr>
         else
           case runLoop deadlinePassed input of
             Inl r \<Rightarrow> r
           | Inr st \<Rightarrow>
               (case validateNoOverlap (resourceStates st) of
                  Some failure \<Rightarrow> failure
                | None \<Rightarrow>
                    denormalizeResult (allAssignments st) (n_products normalized)
                      (n_resources normalized) (changeoverMatrix normalized)))"


section \<open>Notions of the specification\<close>

text \<open>\<open>covers ws t\<close>: the minute \<open>t\<close> lies in the union of the half-open intervals \<open>ws\<close>.\<close>

definition covers :: "NormalizedInterval list \<Rightarrow> int \<Rightarrow> bool" where
  "covers ws t \<longleftrightarrow> list_ex (\<lambda>w. i_start w \<le> t \<and> t < i_end w) ws"

text \<open>\<open>apart a b\<close>: \<open>b\<close> starts after the end of \<open>a\<close> and not before its start.\<close>

definition apart :: "NormalizedInterval \<Rightarrow> NormalizedInterval \<Rightarrow> bool" where
  "apart a b \<longleftrightarrow> i_end a < i_start b \<and> i_start a \<le> i_start b"

text \<open>
  Two inputs used below. \<open>splitCalendarInput\<close>: one resource with the windows \<open>[0, 100]\<close> and
  \<open>[200, 300]\<close>, two products of one family with a single step each (50 and 60 minutes).
  \<open>insertionInput\<close>: product \<open>P1\<close> (family \<open>X\<close>) runs on \<open>R1\<close> and then on \<open>R2\<close>, product
  \<open>P2\<close> (family \<open>Y\<close>) runs on \<open>R2\<close>, and the changeover from \<open>Y\<close> to \<open>X\<close> takes 30 minutes.
\<close>

definition splitCalendarInput :: Input where
  "splitCalendarInput =
     \<lparr>horizon_end = 300,
      resources =
        [\<lparr>r_id = ''R1'', r_capabilities = [''fill''], r_calendar = [(0, 100), (200, 300)]\<rparr>],
      changeover_matrix_minutes = [],
      products =
        [\<lparr>p_id = ''P1'', p_family = ''A'', p_due = 100,
          p_route = [\<lparr>op_capability = ''fill'', duration_minutes = 50\<rparr>]\<rparr>,
         \<lparr>p_id = ''P2'', p_family = ''A'', p_due = 300,
          p_route = [\<lparr>op_capability = ''fill'', duration_minutes = 60\<rparr>]\<rparr>]\<rparr>"

definition insertionInput :: Input where
  "insertionInput =
     \<lparr>horizon_end = 300,
      resources =
        [\<lparr>r_id = ''R1'', r_capabilities = [''a''], r_calendar = [(0, 300)]\<rparr>,
         \<lparr>r_id = ''R2'', r_capabilities = [''b''], r_calendar = [(0, 300)]\<rparr>],
      changeover_matrix_minutes = [(''Y->X'', 30)],
      products =
        [\<lparr>p_id = ''P1'', p_family = ''X'', p_due = 100,
          p_route = [\<lparr>op_capability = ''a'', duration_minutes = 50\<rparr>,
                     \<lparr>op_capability = ''b'', duration_minutes = 30\<rparr>]\<rparr>,
         \<lparr>p_id = ''P2'', p_family = ''Y'', p_due = 300,
          p_route = [\<lparr>op_capability = ''b'', duration_minutes = 50\<rparr>]\<rparr>]\<rparr>"

text \<open>The assignments that the driving loop leaves on a resource, as (family, start, end).\<close>

definition placedOn :: "ScheduleResult + LoopState \<Rightarrow> string \<Rightarrow> (string \<times> int \<times> int) list" where
  "placedOn r rid =
     (case r of
        Inl _ \<Rightarrow> []
      | Inr st \<Rightarrow>
          (case map_of (resourceStates st) rid of
             None \<Rightarrow> []
           | Some state \<Rightarrow> map (\<lambda>a. (a_productFamily a, a_start a, a_end a)) (rs_assignments state)))"

section \<open>Notions used in the proofs\<close>

text \<open>Removal of the first element that satisfies \<open>P\<close>.\<close>

fun removeFirst :: "('a \<Rightarrow> bool) \<Rightarrow> 'a list \<Rightarrow> 'a list" where
  "removeFirst P [] = []"
| "removeFirst P (x # xs) = (if P x then xs else x # removeFirst P xs)"

text \<open>
  The parts of a successful iteration of \<open>loopBody\<close>: the assignment it records and the
  pool it leaves (the write to the selected operation, the raise of the next step's
  \<open>earliestStart\<close>, the \<open>splice\<close>).
\<close>

definition mkAssignment :: "SchedulableOperation \<Rightarrow> Placement \<Rightarrow> InternalAssignment" where
  "mkAssignment nextOp pl =
     \<lparr>a_productId = productId nextOp, a_productFamily = productFamily nextOp,
      a_stepIndex = stepIndex nextOp, a_operationName = capability nextOp,
      a_resource = pl_resource pl, a_start = pl_start pl, a_end = pl_end pl\<rparr>"

definition raiseNext ::
  "SchedulableOperation \<Rightarrow> int \<Rightarrow> SchedulableOperation list \<Rightarrow> SchedulableOperation list" where
  "raiseNext nextOp e pool =
     updateFirst (\<lambda>u. productId u = productId nextOp \<and> stepIndex u = stepIndex nextOp + 1)
       (\<lambda>u. u\<lparr>earliestStart := max (earliestStart u) e\<rparr>) pool"

definition advancePool ::
  "SchedulableOperation \<Rightarrow> SchedulableOperation \<Rightarrow> int \<Rightarrow> SchedulableOperation list \<Rightarrow>
   SchedulableOperation list" where
  "advancePool selected nextOp e pool =
     (let pool2 = raiseNext nextOp e (updateFirst (\<lambda>u. u = selected) (\<lambda>_. nextOp) pool)
      in splice1
           (findIndex (\<lambda>op. productId op = productId nextOp \<and> stepIndex op = stepIndex nextOp)
              pool2)
           pool2)"

text \<open>
  \<open>loopReaches dp nz pm mx st s\<close>: the driving loop, entered in state \<open>st\<close>, is in state \<open>s\<close>
  at the top of some iteration.
\<close>

inductive loopReaches ::
  "(nat \<Rightarrow> bool) \<Rightarrow> Normalized \<Rightarrow> (string \<times> NormalizedProduct) list \<Rightarrow> nat \<Rightarrow>
   LoopState \<Rightarrow> LoopState \<Rightarrow> bool"
  for dp nz pm mx st where
    start: "loopReaches dp nz pm mx st st"
  | step: "loopReaches dp nz pm mx st s \<Longrightarrow> unscheduled s \<noteq> [] \<Longrightarrow>
           loopBody dp nz pm mx s = Inr s' \<Longrightarrow> loopReaches dp nz pm mx st s'"

text \<open>The best placement of a search, if any, respects the operation and names a resource of \<open>R\<close>.\<close>

definition goodBest :: "SchedulableOperation \<Rightarrow> string set \<Rightarrow> Search \<Rightarrow> bool" where
  "goodBest operation R s \<longleftrightarrow>
     (\<forall>pl. bestPlacement s = Some pl \<longrightarrow>
        earliestStart operation \<le> pl_start pl \<and>
        pl_end pl = pl_start pl + duration operation \<and> pl_resource pl \<in> R)"

definition opKey :: "SchedulableOperation \<Rightarrow> string \<times> nat" where
  "opKey u = (productId u, stepIndex u)"


text \<open>\<open>sameOp u v\<close>: \<open>v\<close> is \<open>u\<close> up to its \<open>earliestStart\<close>.\<close>

definition sameOp :: "SchedulableOperation \<Rightarrow> SchedulableOperation \<Rightarrow> bool" where
  "sameOp u v \<longleftrightarrow> (\<exists>e. v = u\<lparr>earliestStart := e\<rparr>)"

text \<open>Invariants of the driving loop.\<close>

definition poolDurations :: "int \<Rightarrow> LoopState \<Rightarrow> bool" where
  "poolDurations lo st \<longleftrightarrow>
     (\<forall>u\<in>set (unscheduled st). lo \<le> duration u) \<and>
     (\<forall>a\<in>set (allAssignments st). a_start a + lo \<le> a_end a)"

definition withinHorizon :: "int \<Rightarrow> LoopState \<Rightarrow> bool" where
  "withinHorizon hEnd st \<longleftrightarrow>
     (\<forall>u\<in>set (unscheduled st). 0 \<le> earliestStart u) \<and>
     (\<forall>a\<in>set (allAssignments st). 0 \<le> a_start a \<and> a_end a \<le> hEnd) \<and>
     (\<forall>k. set (getOrEmpty (assignments st) k) \<subseteq> set (allAssignments st))"

text \<open>The assignments that the state of resource \<open>r\<close> holds (none when it has no state).\<close>

definition assignedTo :: "(string \<times> ResourceState) list \<Rightarrow> string \<Rightarrow> InternalAssignment list" where
  "assignedTo rstates r = (case map_of rstates r of None \<Rightarrow> [] | Some s \<Rightarrow> rs_assignments s)"

text \<open>Invariant: the state of each resource holds the assignments made on that resource.\<close>

definition statesAgree :: "LoopState \<Rightarrow> bool" where
  "statesAgree st \<longleftrightarrow>
     (\<forall>r. mset (filter (\<lambda>a. a_resource a = r) (allAssignments st)) =
          mset (assignedTo (resourceStates st) r))"

text \<open>\<open>follows p n\<close>: \<open>n\<close> starts when \<open>p\<close> has ended, and takes time.\<close>

definition follows :: "InternalAssignment \<Rightarrow> InternalAssignment \<Rightarrow> bool" where
  "follows p n \<longleftrightarrow> a_end p \<le> a_start n \<and> a_start n < a_end n"










section \<open>Sorting\<close>

lemma insort_by_key: "insort_by (\<lambda>a b. f a - f b) x ys = insort_key f x ys"
  by (induction ys) auto

lemma sort_by_key: "sort_by (\<lambda>a b. f a - f b) xs = sort_key f xs"
  by (induction xs) (simp_all add: sort_by_def insort_by_key)

section \<open>Interval merge\<close>

lemma combine_loop_snoc:
  "combine_loop (pre @ [l]) rest = pre @ combine_loop [l] rest"
proof (induction rest arbitrary: pre l)
  case Nil
  show ?case by simp
next
  case (Cons c rest)
  show ?case
  proof (cases "i_start c \<le> i_end l")
    case True
    then show ?thesis
      using Cons.IH [of pre] Cons.IH [of "[]"] by (simp add: Let_def)
  next
    case False
    then show ?thesis
      using Cons.IH [of "pre @ [l]" c] Cons.IH [of "[l]" c] by (simp add: Let_def)
  qed
qed

lemma combine_from_Cons:
  "combine_loop [l] (c # rest) =
     (if i_start c \<le> i_end l
      then combine_loop [\<lparr>i_start = i_start l, i_end = max (i_end l) (i_end c)\<rparr>] rest
      else l # combine_loop [c] rest)"
  using combine_loop_snoc [of "[l]" c rest] by (simp add: Let_def)

lemma combine_from_hd:
  "combine_loop [l] rest \<noteq> [] \<and> i_start (hd (combine_loop [l] rest)) = i_start l"
proof (induction rest arbitrary: l)
  case Nil show ?case by simp
next
  case (Cons c rest)
  show ?case using Cons.IH [of "\<lparr>i_start = i_start l, i_end = max (i_end l) (i_end c)\<rparr>"]
    by (auto simp: combine_from_Cons simp del: combine_loop.simps)
qed

lemma combine_from_successively:
  "sorted (map i_start (l # rest)) \<Longrightarrow> successively apart (combine_loop [l] rest)"
proof (induction rest arbitrary: l)
  case Nil show ?case by simp
next
  case (Cons c rest)
  show ?case
  proof (cases "i_start c \<le> i_end l")
    case True
    have "sorted (map i_start (\<lparr>i_start = i_start l, i_end = max (i_end l) (i_end c)\<rparr> # rest))"
      using Cons.prems by auto
    from Cons.IH [OF this] True show ?thesis
      by (simp add: combine_from_Cons del: combine_loop.simps)
  next
    case False
    have s: "sorted (map i_start (c # rest))" using Cons.prems by simp
    obtain z zs where h: "combine_loop [c] rest = z # zs" and z: "i_start z = i_start c"
      using combine_from_hd [of c rest] by (cases "combine_loop [c] rest") auto
    have "apart l z"
      using False Cons.prems z by (simp add: apart_def)
    with Cons.IH [OF s] h False show ?thesis
      by (simp add: combine_from_Cons del: combine_loop.simps)
  qed
qed

lemma combine_from_covers:
  "sorted (map i_start (l # rest)) \<Longrightarrow>
   covers (combine_loop [l] rest) t = covers (l # rest) t"
proof (induction rest arbitrary: l)
  case Nil show ?case by simp
next
  case (Cons c rest)
  show ?case
  proof (cases "i_start c \<le> i_end l")
    case True
    let ?m = "\<lparr>i_start = i_start l, i_end = max (i_end l) (i_end c)\<rparr>"
    have "sorted (map i_start (?m # rest))"
      using Cons.prems by auto
    from Cons.IH [OF this] have "covers (combine_loop [?m] rest) t = covers (?m # rest) t" .
    moreover have "i_start l \<le> i_start c" using Cons.prems by simp
    ultimately show ?thesis using True
      by (auto simp: combine_from_Cons covers_def simp del: combine_loop.simps)
  next
    case False
    have s: "sorted (map i_start (c # rest))" using Cons.prems by simp
    from Cons.IH [OF s] False show ?thesis
      by (auto simp: combine_from_Cons covers_def simp del: combine_loop.simps)
  qed
qed

lemma combine_from_fixed:
  "successively apart (l # rest) \<Longrightarrow> combine_loop [l] rest = l # rest"
proof (induction rest arbitrary: l)
  case Nil show ?case by simp
next
  case (Cons c rest)
  then show ?case
    by (simp add: combine_from_Cons apart_def del: combine_loop.simps)
qed

lemma transp_apart: "transp apart"
  by (auto simp: transp_def apart_def)

lemma combine_sorted_wrt: "sorted_wrt apart (combineOverlappingIntervals xs)"
proof (cases "xs = []")
  case True then show ?thesis by (simp add: combineOverlappingIntervals_def)
next
  case False
  let ?s = "sort_key i_start xs"
  have ne: "?s \<noteq> []" using False by (metis length_sort length_0_conv)
  then have "sorted (map i_start (hd ?s # tl ?s))" by simp
  then have "successively apart (combine_loop [hd ?s] (tl ?s))"
    by (rule combine_from_successively)
  then show ?thesis using False
    by (simp add: combineOverlappingIntervals_def sort_by_key Let_def
        successively_conv_sorted_wrt [OF transp_apart] del: combine_loop.simps)
qed

lemma combine_covers: "covers (combineOverlappingIntervals xs) t = covers xs t"
proof (cases "xs = []")
  case True then show ?thesis by (simp add: combineOverlappingIntervals_def)
next
  case False
  let ?s = "sort_key i_start xs"
  have ne: "?s \<noteq> []" using False by (metis length_sort length_0_conv)
  then have "sorted (map i_start (hd ?s # tl ?s))" by simp
  then have "covers (combine_loop [hd ?s] (tl ?s)) t = covers (hd ?s # tl ?s) t"
    by (rule combine_from_covers)
  also have "\<dots> = covers ?s t" using ne by simp
  also have "\<dots> = covers xs t" by (simp add: covers_def list_ex_iff)
  finally show ?thesis using False
    by (simp add: combineOverlappingIntervals_def sort_by_key Let_def del: combine_loop.simps)
qed

lemma combine_idem:
  "combineOverlappingIntervals (combineOverlappingIntervals xs) = combineOverlappingIntervals xs"
proof -
  let ?out = "combineOverlappingIntervals xs"
  show ?thesis
  proof (cases "?out = []")
    case True then show ?thesis by (simp add: combineOverlappingIntervals_def)
  next
    case False
    have sw: "sorted_wrt apart ?out" by (rule combine_sorted_wrt)
    have "sorted_wrt (\<lambda>a b. i_start a \<le> i_start b) ?out"
      by (rule sorted_wrt_mono_rel [OF _ sw]) (simp add: apart_def)
    then have "sorted (map i_start ?out)" by (simp add: sorted_map)
    then have s: "sort_key i_start ?out = ?out" by (rule sort_key_id_if_sorted)
    have "successively apart (hd ?out # tl ?out)"
      using sw False by (simp add: successively_if_sorted_wrt)
    then have "combine_loop [hd ?out] (tl ?out) = hd ?out # tl ?out"
      by (rule combine_from_fixed)
    then have "combineOverlappingIntervals ?out = ?out"
      using False s
      by (simp add: combineOverlappingIntervals_def [of ?out] sort_by_key Let_def del: combine_loop.simps)
    then show ?thesis .
  qed
qed


text \<open>
  C6. For every list of intervals, \<open>combineOverlappingIntervals\<close> returns a list sorted by
  start, in which every later element starts strictly after the end of every earlier one
  (so no two elements overlap or touch), which covers exactly the minutes that the input
  covers, which is empty for the empty input, and on which \<open>combineOverlappingIntervals\<close>
  changes nothing.
\<close>

theorem combineOverlappingIntervals_merges:
  "sorted (map i_start (combineOverlappingIntervals xs)) \<and>
   (\<forall>i j. i < j \<and> j < length (combineOverlappingIntervals xs) \<longrightarrow>
      i_end (combineOverlappingIntervals xs ! i) < i_start (combineOverlappingIntervals xs ! j)) \<and>
   (\<forall>i j. i < length (combineOverlappingIntervals xs) \<and> j < length (combineOverlappingIntervals xs) \<and> i \<noteq> j \<longrightarrow>
      \<not> doIntervalsOverlap (combineOverlappingIntervals xs ! i) (combineOverlappingIntervals xs ! j)) \<and>
   (\<forall>t. covers (combineOverlappingIntervals xs) t = covers xs t) \<and>
   combineOverlappingIntervals [] = [] \<and>
   combineOverlappingIntervals (combineOverlappingIntervals xs) = combineOverlappingIntervals xs"
proof -
  let ?out = "combineOverlappingIntervals xs"
  have sw: "sorted_wrt apart ?out" by (rule combine_sorted_wrt)
  have lt: "apart (?out ! i) (?out ! j)" if "i < j" "j < length ?out" for i j
    using sw that by (simp add: sorted_wrt_iff_nth_less)
  have "sorted_wrt (\<lambda>a b. i_start a \<le> i_start b) ?out"
    by (rule sorted_wrt_mono_rel [OF _ sw]) (simp add: apart_def)
  then have 1: "sorted (map i_start ?out)" by (simp add: sorted_map)
  have 2: "\<forall>i j. i < j \<and> j < length ?out \<longrightarrow> i_end (?out ! i) < i_start (?out ! j)"
    using lt by (simp add: apart_def)
  have 3: "\<not> doIntervalsOverlap (?out ! i) (?out ! j)"
    if "i < length ?out" "j < length ?out" "i \<noteq> j" for i j
  proof (cases "i < j")
    case True
    with lt [of i j] that show ?thesis by (simp add: apart_def doIntervalsOverlap_def)
  next
    case False
    with that have "j < i" by simp
    with lt [of j i] that show ?thesis by (simp add: apart_def doIntervalsOverlap_def)
  qed
  have 5: "combineOverlappingIntervals [] = []" by (simp add: combineOverlappingIntervals_def)
  show ?thesis using 1 2 3 5 combine_covers combine_idem by blast
qed

theorem combineOverlappingIntervals_merges_witness:
  "combineOverlappingIntervals
     [\<lparr>i_start = 120, i_end = 180\<rparr>, \<lparr>i_start = 0, i_end = 60\<rparr>, \<lparr>i_start = 60, i_end = 90\<rparr>]
   = [\<lparr>i_start = 0, i_end = 90\<rparr>, \<lparr>i_start = 120, i_end = 180\<rparr>] \<and>
   i_end (combineOverlappingIntervals
     [\<lparr>i_start = 120, i_end = 180\<rparr>, \<lparr>i_start = 0, i_end = 60\<rparr>, \<lparr>i_start = 60, i_end = 90\<rparr>] ! 0)
   < i_start (combineOverlappingIntervals
     [\<lparr>i_start = 120, i_end = 180\<rparr>, \<lparr>i_start = 0, i_end = 60\<rparr>, \<lparr>i_start = 60, i_end = 90\<rparr>] ! 1)"
proof -
  have e: "combineOverlappingIntervals
     [\<lparr>i_start = 120, i_end = 180\<rparr>, \<lparr>i_start = 0, i_end = 60\<rparr>, \<lparr>i_start = 60, i_end = 90\<rparr>]
   = [\<lparr>i_start = 0, i_end = 90\<rparr>, \<lparr>i_start = 120, i_end = 180\<rparr>]"
    by (simp add: combineOverlappingIntervals_def sort_by_def Let_def)
  have "(0::nat) < 1 \<and> 1 < length (combineOverlappingIntervals
     [\<lparr>i_start = 120, i_end = 180\<rparr>, \<lparr>i_start = 0, i_end = 60\<rparr>, \<lparr>i_start = 60, i_end = 90\<rparr>])"
    by (simp add: e)
  with combineOverlappingIntervals_merges
     [of "[\<lparr>i_start = 120, i_end = 180\<rparr>, \<lparr>i_start = 0, i_end = 60\<rparr>, \<lparr>i_start = 60, i_end = 90\<rparr>]"] e
  show ?thesis by blast
qed



section \<open>Empty product list\<close>

text \<open>
  C9. For an input without products, \<open>schedule\<close> returns success with no assignments, all
  counters zero and an empty utilization map, whatever the clock says: the driving loop,
  whose first statement reads the clock, is not entered.
\<close>

theorem schedule_empty_products:
  "products input = [] \<Longrightarrow>
   schedule deadlinePassed input =
     SuccessOutput SCHEDULER_VERSION []
       \<lparr>tardiness_minutes = 0, changeovers = 0, makespan_minutes = 0,
        utilization = [], on_time_jobs = 0, total_jobs = 0\<rparr>"
  by (simp add: schedule_def normalizeInput_def Let_def)

theorem schedule_empty_products_witness:
  "schedule (\<lambda>_. True)
     \<lparr>horizon_end = 480,
      resources = [\<lparr>r_id = ''Fill-1'', r_capabilities = [''fill''], r_calendar = [(0, 480)]\<rparr>],
      changeover_matrix_minutes = [(''standard->premium'', 20)],
      products = []\<rparr> =
   SuccessOutput SCHEDULER_VERSION []
     \<lparr>tardiness_minutes = 0, changeovers = 0, makespan_minutes = 0,
      utilization = [], on_time_jobs = 0, total_jobs = 0\<rparr>"
  using schedule_empty_products
    [of "\<lparr>horizon_end = 480,
      resources = [\<lparr>r_id = ''Fill-1'', r_capabilities = [''fill''], r_calendar = [(0, 480)]\<rparr>],
      changeover_matrix_minutes = [(''standard->premium'', 20)],
      products = []\<rparr>" "\<lambda>_. True"]
  by simp

section \<open>Calendar containment\<close>

text \<open>
  C1. Every assignment of a successful schedule lies within one calendar window of its
  resource. The code breaks this on \<open>splitCalendarInput\<close>: in the gap after an existing
  assignment, \<open>gapStart\<close> is the end of that assignment and not the start of the window
  under consideration, so the second product is placed at \<open>[50, 110)\<close> while the windows of
  the resource are \<open>[0, 100]\<close> and \<open>[200, 300]\<close>.
\<close>

theorem schedule_leaves_calendar_window:
  "schedule (\<lambda>_. False) splitCalendarInput =
     SuccessOutput ''1.0.0''
       [\<lparr>out_product = ''P1'', out_operation = ''fill'', out_resource = ''R1'',
         out_start = 0, out_end = 50\<rparr>,
        \<lparr>out_product = ''P2'', out_operation = ''fill'', out_resource = ''R1'',
         out_start = 50, out_end = 110\<rparr>]
       \<lparr>tardiness_minutes = 0, changeovers = 0, makespan_minutes = 110,
        utilization = [(''R1'', 55)], on_time_jobs = 2, total_jobs = 2\<rparr> \<and>
   map_of (n_resources (normalizeInput splitCalendarInput)) ''R1'' =
     Some \<lparr>nr_id = ''R1'', nr_capabilities = [''fill''],
           nr_calendar = [\<lparr>i_start = 0, i_end = 100\<rparr>, \<lparr>i_start = 200, i_end = 300\<rparr>]\<rparr> \<and>
   \<not> isWithinCalendarWindow 50 110 [\<lparr>i_start = 0, i_end = 100\<rparr>, \<lparr>i_start = 200, i_end = 300\<rparr>]"
  by code_simp

section \<open>Changeover lower bound\<close>

text \<open>
  C2. Two chronologically adjacent assignments of differing family on one resource are at
  least the changeover apart. The code breaks this on \<open>insertionInput\<close>: the operation of
  family \<open>Y\<close> is inserted at \<open>[0, 50)\<close> on \<open>R2\<close>, directly before the assignment of family
  \<open>X\<close> at \<open>[50, 80)\<close>, although the changeover from \<open>Y\<close> to \<open>X\<close> is 30 minutes; the search
  compares a candidate with the assignment before its gap only.
\<close>

theorem schedule_inserts_without_changeover:
  "schedule (\<lambda>_. False) insertionInput =
     SuccessOutput ''1.0.0''
       [\<lparr>out_product = ''P1'', out_operation = ''a'', out_resource = ''R1'',
         out_start = 0, out_end = 50\<rparr>,
        \<lparr>out_product = ''P2'', out_operation = ''b'', out_resource = ''R2'',
         out_start = 0, out_end = 50\<rparr>,
        \<lparr>out_product = ''P1'', out_operation = ''b'', out_resource = ''R2'',
         out_start = 50, out_end = 80\<rparr>]
       \<lparr>tardiness_minutes = 0, changeovers = 1, makespan_minutes = 80,
        utilization = [(''R1'', 17), (''R2'', 37)], on_time_jobs = 2, total_jobs = 2\<rparr> \<and>
   placedOn (runLoop (\<lambda>_. False) insertionInput) ''R2'' = [(''Y'', 0, 50), (''X'', 50, 80)] \<and>
   getChangeoverTime (Some ''Y'') ''X'' (changeover_matrix_minutes insertionInput) = 30"
  by code_simp

section \<open>The driving loop\<close>

lemma loopBody_Inr:
  assumes "loopBody dp nz pm mx st = Inr st'"
  obtains selected pl near rs where
    "selectNextOperation (unscheduled st) (assignments st) pm = Some selected"
    "tryPlaceOperation (withPriorStep (assignments st) selected)
       (getEligibleResources (withPriorStep (assignments st) selected) (n_resources nz))
       (resourceStates st) (changeoverMatrix nz) = Some (Some pl, near)"
    "pl_end pl \<le> horizonEnd nz"
    "map_of (resourceStates st) (pl_resource pl) = Some rs"
    "iteration st \<le> mx"
    "st' = \<lparr>unscheduled = advancePool selected (withPriorStep (assignments st) selected) (pl_end pl) (unscheduled st),
            assignments = AList.update (productId (withPriorStep (assignments st) selected))
               (getOrEmpty (assignments st) (productId (withPriorStep (assignments st) selected)) @
                  [mkAssignment (withPriorStep (assignments st) selected) pl]) (assignments st),
            allAssignments = allAssignments st @ [mkAssignment (withPriorStep (assignments st) selected) pl],
            resourceStates = AList.update (pl_resource pl)
               (updateResourceState rs (mkAssignment (withPriorStep (assignments st) selected) pl))
               (resourceStates st),
            iteration = Suc (iteration st)\<rparr>"
  using assms unfolding loopBody_def advancePool_def raiseNext_def mkAssignment_def
  by (auto simp: Let_def split: if_splits option.splits prod.splits)

lemma drivingLoop_Inr:
  "drivingLoop dp nz pm mx st = Inr st' \<Longrightarrow> loopReaches dp nz pm mx st st' \<and> unscheduled st' = []"
proof (induction dp nz pm mx st rule: drivingLoop.induct)
  case (1 dp nz pm mx st)
  show ?case
  proof (cases "unscheduled st = []")
    case True
    with "1.prems" show ?thesis by (simp add: drivingLoop.simps loopReaches.start)
  next
    case False
    with "1.prems" obtain s1 where b: "loopBody dp nz pm mx st = Inr s1"
      and d: "drivingLoop dp nz pm mx s1 = Inr st'"
      by (auto simp: drivingLoop.simps [of dp nz pm mx st] split: sum.splits)
    from "1.IH" [OF False b d] have r: "loopReaches dp nz pm mx s1 st'" and e: "unscheduled st' = []"
      by simp_all
    have "loopReaches dp nz pm mx st s1"
      by (rule loopReaches.step [OF loopReaches.start False b])
    moreover have "loopReaches dp nz pm mx s1 t \<Longrightarrow> loopReaches dp nz pm mx st s1 \<Longrightarrow> loopReaches dp nz pm mx st t" for t
      by (induction rule: loopReaches.induct) (auto intro: loopReaches.step)
    ultimately show ?thesis using r e by blast
  qed
qed

lemma loopReaches_trans:
  "loopReaches dp nz pm mx s1 t \<Longrightarrow> loopReaches dp nz pm mx st s1 \<Longrightarrow> loopReaches dp nz pm mx st t"
  by (induction rule: loopReaches.induct) (auto intro: loopReaches.step)

lemma drivingLoop_Inl:
  "drivingLoop dp nz pm mx st = Inl r \<Longrightarrow>
   \<exists>s. loopReaches dp nz pm mx st s \<and> unscheduled s \<noteq> [] \<and> loopBody dp nz pm mx s = Inl r"
proof (induction dp nz pm mx st rule: drivingLoop.induct)
  case (1 dp nz pm mx st)
  from "1.prems" have ne: "unscheduled st \<noteq> []"
    by (auto simp: drivingLoop.simps [of dp nz pm mx st] split: if_splits)
  show ?case
  proof (cases "loopBody dp nz pm mx st")
    case (Inl r')
    with "1.prems" ne have "r' = r" by (simp add: drivingLoop.simps [of dp nz pm mx st])
    with Inl ne show ?thesis by (blast intro: loopReaches.start)
  next
    case (Inr s1)
    with "1.prems" ne have d: "drivingLoop dp nz pm mx s1 = Inl r"
      by (simp add: drivingLoop.simps [of dp nz pm mx st])
    from "1.IH" [OF ne Inr d] obtain s where
      "loopReaches dp nz pm mx s1 s" "unscheduled s \<noteq> []" "loopBody dp nz pm mx s = Inl r" by blast
    moreover have "loopReaches dp nz pm mx st s1"
      by (rule loopReaches.step [OF loopReaches.start ne Inr])
    ultimately show ?thesis by (blast intro: loopReaches_trans)
  qed
qed

section \<open>Selection and placement\<close>

lemma set_insort_by [simp]: "set (insort_by cmp x xs) = insert x (set xs)"
  by (induction xs) auto

lemma set_sort_by [simp]: "set (sort_by cmp xs) = set xs"
  by (induction xs) (simp_all add: sort_by_def)

lemma sort_by_Nil_iff [simp]: "sort_by cmp xs = [] \<longleftrightarrow> xs = []"
  by (metis set_sort_by set_empty)

lemma selectNextOperation_Some:
  assumes "selectNextOperation pool asg pm = Some sel"
  shows "sel \<in> set pool \<and> isReady asg sel"
proof -
  let ?ready = "filter (isReady asg) pool"
  from assms have ne: "?ready \<noteq> []" and s: "sel = hd (sort_by (compareOps pm) ?ready)"
    by (auto simp: selectNextOperation_def Let_def split: if_splits)
  from ne have "sort_by (compareOps pm) ?ready \<noteq> []" by simp
  from hd_in_set [OF this] have "sel \<in> set (sort_by (compareOps pm) ?ready)" using s by simp
  then show ?thesis by simp
qed

lemma tryGap_good:
  assumes "goodBest operation R s" "rid \<in> R"
  shows "goodBest operation R (tryGap operation rid assigned matrix window i s)"
proof -
  define prev where "prev = (if i = 0 then None else Some (assigned ! (i - 1)))"
  define gs where "gs = max (earliestStart operation)
      (case prev of Some p \<Rightarrow> a_end p | None \<Rightarrow> i_start window)"
  define ge where "ge = min (i_end window)
      (case (if i < length assigned then Some (assigned ! i) else None) of
         Some n \<Rightarrow> a_start n | None \<Rightarrow> i_end window)"
  define co where "co = getChangeoverTime (map_option a_productFamily prev)
      (productFamily operation) matrix"
  define nr where "nr = ''largest gap '' @ show_int (ge - gs) @ ''min < needed '' @
      show_int (co + duration operation) @ ''min (changeover '' @ show_int co @ ''min)''"
  have es: "earliestStart operation \<le> gs" by (simp add: gs_def)
  have eq: "tryGap operation rid assigned matrix window i s =
     (if ge \<le> gs then s
      else if gs + co \<ge> gs \<and> gs + co + duration operation \<le> ge
      then if lessInf (max 0 (gs + co + duration operation - productDue operation)) (bestProjectedTardiness s) \<or>
              (bestProjectedTardiness s = Some (max 0 (gs + co + duration operation - productDue operation)) \<and>
               lessInf (gs + co + duration operation) (earliestEnd s))
           then s\<lparr>bestProjectedTardiness := Some (max 0 (gs + co + duration operation - productDue operation)),
                  earliestEnd := Some (gs + co + duration operation),
                  bestPlacement := Some \<lparr>pl_resource = rid, pl_start = gs + co,
                     pl_end = gs + co + duration operation\<rparr>\<rparr>
           else s
      else if ge - gs > largestGap s
           then s\<lparr>largestGap := ge - gs,
                  bestNear := Some \<lparr>near_resource = rid, near_reason = nr\<rparr>\<rparr>
           else s)"
    by (simp only: tryGap_def Let_def gs_def ge_def co_def prev_def nr_def)
  show ?thesis
    unfolding eq using assms es by (simp add: goodBest_def)
qed

lemma tryWindow_good:
  assumes "goodBest operation R s" "rid \<in> R"
  shows "goodBest operation R (tryWindow operation rid assigned matrix window s)"
proof -
  have "goodBest operation R (fold (tryGap operation rid assigned matrix window) is s)" for "is"
    using assms(1) by (induction "is" arbitrary: s) (simp_all add: tryGap_good assms(2))
  then show ?thesis using assms(1) by (simp add: tryWindow_def del: upt_Suc)
qed

lemma tryWindows_good:
  "goodBest operation R s \<Longrightarrow> rid \<in> R \<Longrightarrow>
   goodBest operation R (fold (tryWindow operation rid assigned matrix) ws s)"
  by (induction ws arbitrary: s) (simp_all add: tryWindow_good)

lemma tryResources_good:
  "tryResources operation rs rstates matrix s = Some s' \<Longrightarrow> goodBest operation R s \<Longrightarrow>
   nr_id ` set rs \<subseteq> R \<Longrightarrow> goodBest operation R s'"
proof (induction rs arbitrary: s)
  case Nil
  then show ?case by simp
next
  case (Cons r rs)
  from Cons.prems(1) obtain state where st: "map_of rstates (nr_id r) = Some state"
    and rec: "tryResources operation rs rstates matrix
       (fold (tryWindow operation (nr_id r) (rs_assignments state) matrix) (nr_calendar r) s) = Some s'"
    by (auto split: option.splits)
  have "goodBest operation R (fold (tryWindow operation (nr_id r) (rs_assignments state) matrix) (nr_calendar r) s)"
    using Cons.prems(2,3) by (intro tryWindows_good) auto
  from Cons.IH [OF rec this] Cons.prems(3) show ?case by simp
qed

lemma tryPlaceOperation_placement:
  assumes "tryPlaceOperation operation eligible rstates matrix = Some (Some pl, near)"
  shows "earliestStart operation \<le> pl_start pl \<and>
         pl_end pl = pl_start pl + duration operation \<and>
         pl_resource pl \<in> nr_id ` set eligible"
proof -
  let ?init = "\<lparr>bestPlacement = None, bestProjectedTardiness = None, earliestEnd = None,
           bestNear = None, largestGap = 0\<rparr>"
  from assms obtain s where t: "tryResources operation eligible rstates matrix ?init = Some s"
    and b: "bestPlacement s = Some pl"
    by (auto simp: tryPlaceOperation_def)
  have "goodBest operation (nr_id ` set eligible) ?init" by (simp add: goodBest_def)
  from tryResources_good [OF t this] b show ?thesis by (simp add: goodBest_def)
qed

section \<open>The pool after an iteration\<close>

lemma findIndex_nonneg: "x \<in> set xs \<Longrightarrow> P x \<Longrightarrow> 0 \<le> findIndex P xs"
  by (induction xs) (auto simp: Let_def)

lemma splice1_Cons_Suc: "0 \<le> i \<Longrightarrow> splice1 (i + 1) (x # xs) = x # splice1 i xs"
  by (auto simp: splice1_def Let_def nat_add_distrib min_def)

lemma splice1_findIndex:
  "\<exists>x\<in>set xs. P x \<Longrightarrow> splice1 (findIndex P xs) xs = removeFirst P xs"
proof (induction xs)
  case Nil
  then show ?case by simp
next
  case (Cons x xs)
  show ?case
  proof (cases "P x")
    case True
    then show ?thesis by (simp add: splice1_def)
  next
    case False
    with Cons.prems have ex: "\<exists>x\<in>set xs. P x" by simp
    from ex findIndex_nonneg [of _ xs P] have nn: "0 \<le> findIndex P xs" by blast
    with False Cons.IH [OF ex] show ?thesis
      by (simp add: Let_def splice1_Cons_Suc)
  qed
qed

lemma sameOp_refl: "sameOp u u"
  unfolding sameOp_def by (rule exI [of _ "earliestStart u"]) simp

lemma withPriorStep_cases:
  "withPriorStep asg sel = sel \<or>
   (\<exists>prior. 0 < stepIndex sel \<and>
      find (\<lambda>a. a_stepIndex a = stepIndex sel - 1) (getOrEmpty asg (productId sel)) = Some prior \<and>
      withPriorStep asg sel = sel\<lparr>earliestStart := a_end prior\<rparr>)"
  by (simp add: withPriorStep_def split: option.splits)

lemma withPriorStep_same: "sameOp sel (withPriorStep asg sel)"
proof -
  from withPriorStep_cases [of asg sel] show ?thesis
  proof
    assume "withPriorStep asg sel = sel"
    then show ?thesis by (simp add: sameOp_refl)
  next
    assume "\<exists>prior. 0 < stepIndex sel \<and>
      find (\<lambda>a. a_stepIndex a = stepIndex sel - 1) (getOrEmpty asg (productId sel)) = Some prior \<and>
      withPriorStep asg sel = sel\<lparr>earliestStart := a_end prior\<rparr>"
    then obtain prior where "0 < stepIndex sel \<and>
      find (\<lambda>a. a_stepIndex a = stepIndex sel - 1) (getOrEmpty asg (productId sel)) = Some prior \<and>
      withPriorStep asg sel = sel\<lparr>earliestStart := a_end prior\<rparr>" ..
    then have "withPriorStep asg sel = sel\<lparr>earliestStart := a_end prior\<rparr>" by simp
    then have "\<exists>e. withPriorStep asg sel = sel\<lparr>earliestStart := e\<rparr>" by (rule exI)
    then show ?thesis unfolding sameOp_def .
  qed
qed

lemma map_updateFirst_key:
  "(\<And>x. x \<in> set xs \<Longrightarrow> P x \<Longrightarrow> k (f x) = k x) \<Longrightarrow> map k (updateFirst P f xs) = map k xs"
  by (induction xs) auto

lemma map_removeFirst_key:
  "(\<And>x. P x \<longleftrightarrow> k x = v) \<Longrightarrow> map k (removeFirst P xs) = remove1 v (map k xs)"
  by (induction xs) auto

lemma set_updateFirst: "set (updateFirst P f xs) \<subseteq> set xs \<union> f ` {x \<in> set xs. P x}"
  by (induction xs) auto

lemma set_removeFirst: "set (removeFirst P xs) \<subseteq> set xs"
  by (induction xs) auto

lemma sameOp_key: "sameOp u v \<Longrightarrow> opKey v = opKey u"
  by (auto simp: sameOp_def opKey_def)

lemma advancePool_keys:
  assumes "sel \<in> set pool" "sameOp sel nextOp"
  shows "map opKey (advancePool sel nextOp e pool) = remove1 (opKey nextOp) (map opKey pool)"
proof -
  let ?p1 = "updateFirst (\<lambda>u. u = sel) (\<lambda>_. nextOp) pool"
  let ?p2 = "raiseNext nextOp e ?p1"
  have k1: "map opKey ?p1 = map opKey pool"
    using assms(2) by (intro map_updateFirst_key) (simp add: sameOp_key)
  have k2: "map opKey ?p2 = map opKey ?p1"
    unfolding raiseNext_def by (intro map_updateFirst_key) (simp add: opKey_def)
  have "opKey nextOp \<in> set (map opKey pool)"
    using assms by (auto simp: sameOp_key intro!: image_eqI [where x = sel])
  then have "opKey nextOp \<in> set (map opKey ?p2)" using k1 k2 by simp
  then have ex: "\<exists>x\<in>set ?p2. opKey x = opKey nextOp" by auto
  let ?P = "\<lambda>op. productId op = productId nextOp \<and> stepIndex op = stepIndex nextOp"
  have P: "?P x \<longleftrightarrow> opKey x = opKey nextOp" for x
    by (simp add: opKey_def)
  from ex have ex': "\<exists>x\<in>set ?p2. ?P x" by (simp only: P)
  have "advancePool sel nextOp e pool = splice1 (findIndex ?P ?p2) ?p2"
    by (simp only: advancePool_def Let_def)
  also have "\<dots> = removeFirst ?P ?p2"
    by (rule splice1_findIndex [OF ex'])
  finally have "map opKey (advancePool sel nextOp e pool) = map opKey (removeFirst ?P ?p2)"
    by (rule arg_cong)
  also have "\<dots> = remove1 (opKey nextOp) (map opKey ?p2)"
    by (rule map_removeFirst_key) (rule P)
  finally show ?thesis by (simp only: k1 k2)
qed

lemma advancePool_elems:
  assumes "v \<in> set (advancePool sel nextOp e pool)"
  shows "v \<in> set pool \<or> v = nextOp \<or>
         (\<exists>u. (u \<in> set pool \<or> u = nextOp) \<and> v = u\<lparr>earliestStart := max (earliestStart u) e\<rparr>)"
proof -
  let ?p1 = "updateFirst (\<lambda>u. u = sel) (\<lambda>_. nextOp) pool"
  let ?p2 = "raiseNext nextOp e ?p1"
  let ?P = "\<lambda>op. productId op = productId nextOp \<and> stepIndex op = stepIndex nextOp"
  have "set (splice1 (findIndex ?P ?p2) ?p2) \<subseteq> set ?p2"
    by (auto simp: splice1_def Let_def dest: in_set_takeD in_set_dropD)
  with assms have "v \<in> set ?p2" by (auto simp: advancePool_def Let_def)
  then have "v \<in> set ?p1 \<or> (\<exists>u\<in>set ?p1. v = u\<lparr>earliestStart := max (earliestStart u) e\<rparr>)"
    using set_updateFirst [of "\<lambda>u. productId u = productId nextOp \<and> stepIndex u = stepIndex nextOp + 1"
       "\<lambda>u. u\<lparr>earliestStart := max (earliestStart u) e\<rparr>" ?p1]
    by (auto simp: raiseNext_def)
  then obtain u where u: "u \<in> set ?p1" and v: "v = u \<or> v = u\<lparr>earliestStart := max (earliestStart u) e\<rparr>"
    by auto
  have "set ?p1 \<subseteq> set pool \<union> {nextOp}"
    using set_updateFirst [of "\<lambda>u. u = sel" "\<lambda>_. nextOp" pool] by auto
  with u have u': "u \<in> set pool \<or> u = nextOp" by auto
  from v show ?thesis
  proof
    assume "v = u"
    with u' show ?thesis by auto
  next
    assume "v = u\<lparr>earliestStart := max (earliestStart u) e\<rparr>"
    with u' have "\<exists>u. (u \<in> set pool \<or> u = nextOp) \<and> v = u\<lparr>earliestStart := max (earliestStart u) e\<rparr>"
      by (intro exI [of _ u]) simp
    then show ?thesis by simp
  qed
qed

section \<open>Loop progress\<close>

lemma length_advancePool:
  assumes "sel \<in> set pool" "sameOp sel nextOp"
  shows "Suc (length (advancePool sel nextOp e pool)) = length pool"
proof -
  have k: "opKey nextOp \<in> set (map opKey pool)"
    using assms by (auto simp: sameOp_key intro!: image_eqI [where x = sel])
  have "length (advancePool sel nextOp e pool) = length (map opKey (advancePool sel nextOp e pool))"
    by simp
  also have "\<dots> = length (remove1 (opKey nextOp) (map opKey pool))"
    by (simp only: advancePool_keys [OF assms])
  also have "\<dots> = length pool - 1"
    using k by (simp only: length_remove1 length_map if_True)
  finally show ?thesis using assms(1) by (cases pool) auto
qed

lemma loopBody_counts:
  assumes "loopBody dp nz pm mx st = Inr st'"
  shows "Suc (length (unscheduled st')) = length (unscheduled st) \<and> iteration st' = Suc (iteration st)"
proof -
  from assms obtain selected pl near rs where
    sel: "selectNextOperation (unscheduled st) (assignments st) pm = Some selected" and
    st': "st' = \<lparr>unscheduled = advancePool selected (withPriorStep (assignments st) selected) (pl_end pl) (unscheduled st),
            assignments = AList.update (productId (withPriorStep (assignments st) selected))
               (getOrEmpty (assignments st) (productId (withPriorStep (assignments st) selected)) @
                  [mkAssignment (withPriorStep (assignments st) selected) pl]) (assignments st),
            allAssignments = allAssignments st @ [mkAssignment (withPriorStep (assignments st) selected) pl],
            resourceStates = AList.update (pl_resource pl)
               (updateResourceState rs (mkAssignment (withPriorStep (assignments st) selected) pl))
               (resourceStates st),
            iteration = Suc (iteration st)\<rparr>"
    by (rule loopBody_Inr)
  from selectNextOperation_Some [OF sel] have "selected \<in> set (unscheduled st)" by simp
  from length_advancePool [OF this withPriorStep_same]
  show ?thesis by (simp add: st')
qed

lemma loopReaches_count:
  "loopReaches dp nz pm mx st0 s \<Longrightarrow>
   iteration s + length (unscheduled s) = iteration st0 + length (unscheduled st0)"
proof (induction rule: loopReaches.induct)
  case start
  show ?case by simp
next
  case (step s s')
  from loopBody_counts [OF step.hyps(3)] step.IH show ?case by simp
qed

lemma loopBody_stuck:
  "loopBody dp nz pm mx s = Inl (FailureOutput v ''Scheduler stuck in infinite loop'' w) \<Longrightarrow>
   mx < iteration s"
  unfolding loopBody_def
  by (simp add: Let_def split: if_splits option.splits prod.splits)

lemma validateNoOverlap_Some:
  "validateNoOverlap rs = Some f \<Longrightarrow> \<exists>v w. f = FailureOutput v ''Validation failed: overlap detected'' w"
  by (induction rs rule: validateNoOverlap.induct) (auto split: option.splits)

lemma n_products_Nil [simp]: "n_products (normalizeInput input) = [] \<longleftrightarrow> products input = []"
  by (simp add: normalizeInput_def Let_def)

lemma schedule_Failure:
  assumes "schedule dp input = FailureOutput v e w"
  shows "runLoop dp input = Inl (FailureOutput v e w) \<or> e = ''Validation failed: overlap detected''"
proof (cases "products input = []")
  case True
  with assms show ?thesis by (simp add: schedule_def Let_def)
next
  case False
  show ?thesis
  proof (cases "runLoop dp input")
    case (Inl r)
    with assms False show ?thesis by (simp add: schedule_def Let_def)
  next
    case (Inr st)
    show ?thesis
    proof (cases "validateNoOverlap (resourceStates st)")
      case None
      with assms False Inr show ?thesis
        by (simp add: schedule_def Let_def denormalizeResult_def)
    next
      case (Some f)
      with assms False Inr have "f = FailureOutput v e w" by (simp add: schedule_def Let_def)
      with validateNoOverlap_Some [OF Some] show ?thesis by simp
    qed
  qed
qed

lemma runLoop_Inr:
  assumes "runLoop dp input = Inr st"
  shows "loopReaches dp (normalizeInput input) (productsMapOf (n_products (normalizeInput input)))
           (length (buildOperationsList (n_products (normalizeInput input))) * 5)
           (initialState (normalizeInput input)) st \<and> unscheduled st = []"
  using assms unfolding runLoop_def Let_def by (rule drivingLoop_Inr)

lemma runLoop_Inl:
  assumes "runLoop dp input = Inl r"
  shows "\<exists>s. loopReaches dp (normalizeInput input) (productsMapOf (n_products (normalizeInput input)))
           (length (buildOperationsList (n_products (normalizeInput input))) * 5)
           (initialState (normalizeInput input)) s \<and> unscheduled s \<noteq> [] \<and>
           loopBody dp (normalizeInput input) (productsMapOf (n_products (normalizeInput input)))
           (length (buildOperationsList (n_products (normalizeInput input))) * 5) s = Inl r"
  using assms unfolding runLoop_def Let_def by (rule drivingLoop_Inl)

text \<open>
  C10. Every iteration of the driving loop that does not return removes exactly one
  operation from the pool and adds one to the counter; so in every state the loop reaches
  on an input with \<open>N\<close> operations, counter and pool size add up to \<open>N\<close>, the counter stays
  at most \<open>N\<close> (and \<open>N * 5 = maxIterations\<close>), and \<open>schedule\<close> never returns the failure
  "Scheduler stuck in infinite loop".
\<close>

theorem driving_loop_progress:
  "(loopBody dp nz pm mx s = Inr s' \<longrightarrow>
      Suc (length (unscheduled s')) = length (unscheduled s) \<and> iteration s' = Suc (iteration s)) \<and>
   (loopReaches dp (normalizeInput input) (productsMapOf (n_products (normalizeInput input)))
      (length (buildOperationsList (n_products (normalizeInput input))) * 5)
      (initialState (normalizeInput input)) t \<longrightarrow>
      iteration t + length (unscheduled t) = length (buildOperationsList (n_products (normalizeInput input))) \<and>
      iteration t \<le> length (buildOperationsList (n_products (normalizeInput input))) * 5) \<and>
   schedule dp input \<noteq> FailureOutput v ''Scheduler stuck in infinite loop'' w"
proof (intro conjI impI)
  let ?nz = "normalizeInput input"
  let ?pm = "productsMapOf (n_products ?nz)"
  let ?N = "length (buildOperationsList (n_products ?nz))"
  assume "loopBody dp nz pm mx s = Inr s'"
  from loopBody_counts [OF this]
  show "Suc (length (unscheduled s')) = length (unscheduled s)" and "iteration s' = Suc (iteration s)"
    by simp_all
next
  let ?nz = "normalizeInput input"
  let ?N = "length (buildOperationsList (n_products ?nz))"
  assume r: "loopReaches dp ?nz (productsMapOf (n_products ?nz)) (?N * 5) (initialState ?nz) t"
  from loopReaches_count [OF r]
  show c: "iteration t + length (unscheduled t) = ?N" by (simp add: initialState_def)
  then show "iteration t \<le> ?N * 5" by linarith
next
  let ?nz = "normalizeInput input"
  let ?pm = "productsMapOf (n_products ?nz)"
  let ?N = "length (buildOperationsList (n_products ?nz))"
  show "schedule dp input \<noteq> FailureOutput v ''Scheduler stuck in infinite loop'' w"
  proof
    assume "schedule dp input = FailureOutput v ''Scheduler stuck in infinite loop'' w"
    from schedule_Failure [OF this]
    have "runLoop dp input = Inl (FailureOutput v ''Scheduler stuck in infinite loop'' w)" by simp
    from runLoop_Inl [OF this] obtain s where
      r: "loopReaches dp ?nz ?pm (?N * 5) (initialState ?nz) s" and
      b: "loopBody dp ?nz ?pm (?N * 5) s = Inl (FailureOutput v ''Scheduler stuck in infinite loop'' w)"
      by blast
    from loopBody_stuck [OF b] have "?N * 5 < iteration s" .
    moreover from loopReaches_count [OF r] have "iteration s + length (unscheduled s) = ?N"
      by (simp add: initialState_def)
    ultimately show False by linarith
  qed
qed

section \<open>Durations and the horizon\<close>

lemma sameOp_trans: "sameOp u v \<Longrightarrow> sameOp v w \<Longrightarrow> sameOp u w"
  by (auto simp: sameOp_def)

lemma sameOp_raise: "sameOp u (u\<lparr>earliestStart := e\<rparr>)"
  unfolding sameOp_def by (rule exI [of _ e]) simp

lemma sameOp_fields:
  "sameOp u v \<Longrightarrow> productId v = productId u \<and> stepIndex v = stepIndex u \<and>
     duration v = duration u \<and> capability v = capability u \<and>
     productFamily v = productFamily u \<and> productDue v = productDue u"
  by (auto simp: sameOp_def)

lemma advancePool_same:
  assumes "v \<in> set (advancePool sel nextOp e pool)" "sel \<in> set pool" "sameOp sel nextOp"
  shows "\<exists>u\<in>set pool. sameOp u v"
proof -
  from advancePool_elems [OF assms(1)]
  consider "v \<in> set pool" | "v = nextOp"
    | u where "u \<in> set pool \<or> u = nextOp" "v = u\<lparr>earliestStart := max (earliestStart u) e\<rparr>"
    by blast
  then show ?thesis
  proof cases
    case 1
    then show ?thesis by (blast intro: sameOp_refl)
  next
    case 2
    with assms(2,3) show ?thesis by blast
  next
    case 3
    have uv: "sameOp u v" unfolding 3(2) by (rule sameOp_raise)
    from 3(1) show ?thesis
    proof
      assume "u \<in> set pool"
      with uv show ?thesis by blast
    next
      assume "u = nextOp"
      with assms(3) uv have "sameOp sel v" by (blast intro: sameOp_trans)
      with assms(2) show ?thesis by blast
    qed
  qed
qed

lemma loopBody_step:
  assumes "loopBody dp nz pm mx st = Inr st'"
  obtains sel nextOp pl rs where
    "sel \<in> set (unscheduled st)" "isReady (assignments st) sel"
    "nextOp = withPriorStep (assignments st) sel"
    "sameOp sel nextOp"
    "earliestStart nextOp \<le> pl_start pl" "pl_end pl = pl_start pl + duration nextOp"
    "pl_end pl \<le> horizonEnd nz"
    "map_of (resourceStates st) (pl_resource pl) = Some rs"
    "unscheduled st' = advancePool sel nextOp (pl_end pl) (unscheduled st)"
    "assignments st' = AList.update (productId nextOp)
               (getOrEmpty (assignments st) (productId nextOp) @ [mkAssignment nextOp pl]) (assignments st)"
    "allAssignments st' = allAssignments st @ [mkAssignment nextOp pl]"
    "resourceStates st' = AList.update (pl_resource pl)
               (updateResourceState rs (mkAssignment nextOp pl)) (resourceStates st)"
    "iteration st' = Suc (iteration st)"
proof -
  from assms obtain selected pl near rs where
    sel: "selectNextOperation (unscheduled st) (assignments st) pm = Some selected" and
    tp: "tryPlaceOperation (withPriorStep (assignments st) selected)
       (getEligibleResources (withPriorStep (assignments st) selected) (n_resources nz))
       (resourceStates st) (changeoverMatrix nz) = Some (Some pl, near)" and
    he: "pl_end pl \<le> horizonEnd nz" and
    rs: "map_of (resourceStates st) (pl_resource pl) = Some rs" and
    st': "st' = \<lparr>unscheduled = advancePool selected (withPriorStep (assignments st) selected) (pl_end pl) (unscheduled st),
            assignments = AList.update (productId (withPriorStep (assignments st) selected))
               (getOrEmpty (assignments st) (productId (withPriorStep (assignments st) selected)) @
                  [mkAssignment (withPriorStep (assignments st) selected) pl]) (assignments st),
            allAssignments = allAssignments st @ [mkAssignment (withPriorStep (assignments st) selected) pl],
            resourceStates = AList.update (pl_resource pl)
               (updateResourceState rs (mkAssignment (withPriorStep (assignments st) selected) pl))
               (resourceStates st),
            iteration = Suc (iteration st)\<rparr>"
    by (rule loopBody_Inr)
  note s = selectNextOperation_Some [OF sel]
  note p = tryPlaceOperation_placement [OF tp]
  show ?thesis
    by (rule that [of selected "withPriorStep (assignments st) selected" pl rs])
       (use s p he rs in \<open>simp_all add: st' withPriorStep_same\<close>)
qed

lemma poolDurations_step:
  assumes "loopBody dp nz pm mx st = Inr st'" "poolDurations lo st"
  shows "poolDurations lo st'"
proof -
  from assms(1) obtain sel nextOp pl rs where
    sel: "sel \<in> set (unscheduled st)" and same: "sameOp sel nextOp" and
    pe: "pl_end pl = pl_start pl + duration nextOp" and
    pool: "unscheduled st' = advancePool sel nextOp (pl_end pl) (unscheduled st)" and
    all: "allAssignments st' = allAssignments st @ [mkAssignment nextOp pl]"
    by (rule loopBody_step)
  have d: "lo \<le> duration nextOp"
    using assms(2) sel sameOp_fields [OF same] by (simp add: poolDurations_def)
  have "lo \<le> duration v" if "v \<in> set (unscheduled st')" for v
  proof -
    from that pool advancePool_same [OF _ sel same] obtain u where
      "u \<in> set (unscheduled st)" "sameOp u v" by metis
    with assms(2) sameOp_fields [of u v] show ?thesis by (simp add: poolDurations_def)
  qed
  moreover have "a_start a + lo \<le> a_end a" if "a \<in> set (allAssignments st')" for a
    using that assms(2) d pe by (auto simp: all poolDurations_def mkAssignment_def)
  ultimately show ?thesis by (simp add: poolDurations_def)
qed

lemma poolDurations_reach:
  "loopReaches dp nz pm mx st0 s \<Longrightarrow> poolDurations lo st0 \<Longrightarrow> poolDurations lo s"
  by (induction rule: loopReaches.induct) (auto intro: poolDurations_step)

lemma getOrEmpty_update:
  "getOrEmpty (AList.update k v m) k' = (if k' = k then v else getOrEmpty m k')"
  by (simp add: getOrEmpty_def update_conv')

lemma withinHorizon_step:
  assumes "loopBody dp nz pm mx st = Inr st'" "withinHorizon (horizonEnd nz) st" "poolDurations 0 st"
  shows "withinHorizon (horizonEnd nz) st'"
proof -
  from assms(1) obtain sel nextOp pl rs where
    sel: "sel \<in> set (unscheduled st)" and
    nx: "nextOp = withPriorStep (assignments st) sel" and same: "sameOp sel nextOp" and
    ps: "earliestStart nextOp \<le> pl_start pl" and
    pe: "pl_end pl = pl_start pl + duration nextOp" and
    he: "pl_end pl \<le> horizonEnd nz" and
    pool: "unscheduled st' = advancePool sel nextOp (pl_end pl) (unscheduled st)" and
    asg: "assignments st' = AList.update (productId nextOp)
               (getOrEmpty (assignments st) (productId nextOp) @ [mkAssignment nextOp pl]) (assignments st)" and
    all: "allAssignments st' = allAssignments st @ [mkAssignment nextOp pl]"
    by (rule loopBody_step)
  have e0: "0 \<le> earliestStart nextOp"
  proof -
    from withPriorStep_cases [of "assignments st" sel] show ?thesis
    proof
      assume "withPriorStep (assignments st) sel = sel"
      with assms(2) sel nx show ?thesis by (simp add: withinHorizon_def)
    next
      assume "\<exists>prior. 0 < stepIndex sel \<and>
        find (\<lambda>a. a_stepIndex a = stepIndex sel - 1) (getOrEmpty (assignments st) (productId sel)) = Some prior \<and>
        withPriorStep (assignments st) sel = sel\<lparr>earliestStart := a_end prior\<rparr>"
      then obtain prior where
        f: "find (\<lambda>a. a_stepIndex a = stepIndex sel - 1) (getOrEmpty (assignments st) (productId sel)) = Some prior"
        and w: "withPriorStep (assignments st) sel = sel\<lparr>earliestStart := a_end prior\<rparr>" by blast
      from f have "prior \<in> set (getOrEmpty (assignments st) (productId sel))"
        by (auto simp: find_Some_iff)
      with assms(2) have "prior \<in> set (allAssignments st)" by (auto simp: withinHorizon_def)
      with assms(2,3) have "0 \<le> a_end prior" by (fastforce simp: withinHorizon_def poolDurations_def)
      with w nx show ?thesis by simp
    qed
  qed
  have d0: "0 \<le> duration nextOp"
    using assms(3) sel sameOp_fields [OF same] by (simp add: poolDurations_def)
  have p0: "0 \<le> pl_start pl" "0 \<le> pl_end pl" using e0 ps pe d0 by simp_all
  have "0 \<le> earliestStart v" if "v \<in> set (unscheduled st')" for v
  proof -
    from that pool advancePool_elems [of v sel nextOp "pl_end pl" "unscheduled st"]
    consider "v \<in> set (unscheduled st)" | "v = nextOp"
      | u where "u \<in> set (unscheduled st) \<or> u = nextOp" "v = u\<lparr>earliestStart := max (earliestStart u) (pl_end pl)\<rparr>"
      by auto
    then show ?thesis
    proof cases
      case 1 with assms(2) show ?thesis by (simp add: withinHorizon_def)
    next
      case 2 with e0 show ?thesis by simp
    next
      case 3 with p0 show ?thesis by simp
    qed
  qed
  moreover have "0 \<le> a_start a \<and> a_end a \<le> horizonEnd nz" if "a \<in> set (allAssignments st')" for a
    using that assms(2) p0 he by (auto simp: all withinHorizon_def mkAssignment_def)
  moreover have "set (getOrEmpty (assignments st') k) \<subseteq> set (allAssignments st')" for k
    using assms(2) by (auto simp: asg all getOrEmpty_update withinHorizon_def)
  ultimately show ?thesis by (simp add: withinHorizon_def)
qed

lemma withinHorizon_reach:
  "loopReaches dp nz pm mx st0 s \<Longrightarrow> withinHorizon (horizonEnd nz) st0 \<Longrightarrow> poolDurations 0 st0 \<Longrightarrow>
   withinHorizon (horizonEnd nz) s"
proof (induction rule: loopReaches.induct)
  case start
  then show ?case by simp
next
  case (step s s')
  from step.hyps(1) step.prems(2) have "poolDurations 0 s" by (rule poolDurations_reach)
  with step show ?case by (auto intro: withinHorizon_step)
qed

lemma buildOperationsList_elem:
  assumes "u \<in> set (buildOperationsList prods)"
  shows "\<exists>p\<in>set prods. stepIndex u < length (np_route p) \<and>
           productId u = np_id p \<and> productFamily u = np_family p \<and>
           capability u = op_capability (np_route p ! stepIndex u) \<and>
           duration u = duration_minutes (np_route p ! stepIndex u) \<and>
           productDue u = np_due p \<and> earliestStart u = 0"
  using assms by (auto simp: buildOperationsList_def productOperations_def Let_def)

lemma n_products_normalizeInput:
  "n_products (normalizeInput input) =
     map (\<lambda>p. \<lparr>np_id = p_id p, np_family = p_family p, np_due = p_due p, np_route = p_route p\<rparr>)
       (products input)"
  by (simp add: normalizeInput_def Let_def)

lemma horizonEnd_normalizeInput [simp]: "horizonEnd (normalizeInput input) = horizon_end input"
  by (simp add: normalizeInput_def Let_def)

lemma initial_pool_elem:
  assumes "u \<in> set (unscheduled (initialState (normalizeInput input)))"
  shows "\<exists>p\<in>set (products input). stepIndex u < length (p_route p) \<and>
           productId u = p_id p \<and> productFamily u = p_family p \<and>
           capability u = op_capability (p_route p ! stepIndex u) \<and>
           duration u = duration_minutes (p_route p ! stepIndex u) \<and>
           productDue u = p_due p \<and> earliestStart u = 0"
proof -
  from assms have "u \<in> set (buildOperationsList (n_products (normalizeInput input)))"
    by (simp add: initialState_def)
  from buildOperationsList_elem [OF this] show ?thesis
    by (auto simp: n_products_normalizeInput)
qed

lemma initial_poolDurations:
  assumes "\<forall>p\<in>set (products input). \<forall>op\<in>set (p_route p). lo \<le> duration_minutes op"
  shows "poolDurations lo (initialState (normalizeInput input))"
proof -
  have "lo \<le> duration u" if "u \<in> set (unscheduled (initialState (normalizeInput input)))" for u
  proof -
    from initial_pool_elem [OF that] obtain p where
      p: "p \<in> set (products input)" and k: "stepIndex u < length (p_route p)" and
      d: "duration u = duration_minutes (p_route p ! stepIndex u)" by blast
    from k have "p_route p ! stepIndex u \<in> set (p_route p)" by simp
    with assms p d show ?thesis by simp
  qed
  moreover have "allAssignments (initialState (normalizeInput input)) = []"
    by (simp add: initialState_def)
  ultimately show ?thesis by (simp add: poolDurations_def)
qed

lemma initial_withinHorizon: "withinHorizon h (initialState (normalizeInput input))"
proof -
  have "0 \<le> earliestStart u" if "u \<in> set (unscheduled (initialState (normalizeInput input)))" for u
    using initial_pool_elem [OF that] by auto
  moreover have "allAssignments (initialState (normalizeInput input)) = []"
    "assignments (initialState (normalizeInput input)) = []"
    by (simp_all add: initialState_def)
  ultimately show ?thesis by (simp add: withinHorizon_def getOrEmpty_def)
qed

lemma schedule_Success:
  assumes "schedule dp input = SuccessOutput v out k"
  shows "out = [] \<or>
         (\<exists>st. runLoop dp input = Inr st \<and> validateNoOverlap (resourceStates st) = None \<and>
            out = map outputAssignment (sort_by (\<lambda>a b. a_start a - a_start b) (allAssignments st)))"
proof (cases "products input = []")
  case True
  with assms show ?thesis by (simp add: schedule_def Let_def)
next
  case False
  show ?thesis
  proof (cases "runLoop dp input")
    case (Inl r)
    with assms False have "r = SuccessOutput v out k" by (simp add: schedule_def Let_def)
    with runLoop_Inl [OF Inl] obtain s where
      "loopBody dp (normalizeInput input) (productsMapOf (n_products (normalizeInput input)))
           (length (buildOperationsList (n_products (normalizeInput input))) * 5) s = Inl (SuccessOutput v out k)"
      by blast
    then have False unfolding loopBody_def
      by (simp add: Let_def split: if_splits option.splits prod.splits)
    then show ?thesis ..
  next
    case (Inr st)
    show ?thesis
    proof (cases "validateNoOverlap (resourceStates st)")
      case None
      with assms False Inr show ?thesis
        by (simp add: schedule_def Let_def denormalizeResult_def)
    next
      case (Some f)
      with assms False Inr have "f = SuccessOutput v out k" by (simp add: schedule_def Let_def)
      with validateNoOverlap_Some [OF Some] show ?thesis by simp
    qed
  qed
qed

text \<open>
  C8. In every successful schedule of an input whose durations are not negative, every
  assignment starts at minute 0 or later and ends at \<open>horizon_end\<close> (the horizon length) or
  earlier.
\<close>

theorem schedule_within_horizon:
  assumes "schedule deadlinePassed input = SuccessOutput v out k"
    and "\<forall>p\<in>set (products input). \<forall>op\<in>set (p_route p). 0 \<le> duration_minutes op"
  shows "\<forall>a\<in>set out. 0 \<le> out_start a \<and> out_end a \<le> horizon_end input"
proof -
  from schedule_Success [OF assms(1)] show ?thesis
  proof
    assume "out = []"
    then show ?thesis by simp
  next
    assume "\<exists>st. runLoop deadlinePassed input = Inr st \<and> validateNoOverlap (resourceStates st) = None \<and>
            out = map outputAssignment (sort_by (\<lambda>a b. a_start a - a_start b) (allAssignments st))"
    then obtain st where run: "runLoop deadlinePassed input = Inr st"
      and out: "out = map outputAssignment (sort_by (\<lambda>a b. a_start a - a_start b) (allAssignments st))"
      by blast
    from runLoop_Inr [OF run] have
      "loopReaches deadlinePassed (normalizeInput input) (productsMapOf (n_products (normalizeInput input)))
         (length (buildOperationsList (n_products (normalizeInput input))) * 5)
         (initialState (normalizeInput input)) st" by simp
    from withinHorizon_reach [OF this initial_withinHorizon initial_poolDurations [OF assms(2)]]
    have "withinHorizon (horizon_end input) st" by simp
    then show ?thesis
      by (auto simp: out withinHorizon_def outputAssignment_def)
  qed
qed

section \<open>No overlap\<close>

lemma mset_sort_by_start [simp]: "mset (sort_by (\<lambda>a b. a_start a - a_start b) xs) = mset xs"
  by (simp add: sort_by_key)

lemma statesAgreeD:
  "statesAgree st \<Longrightarrow>
   mset (filter (\<lambda>a. a_resource a = r) (allAssignments st)) = mset (assignedTo (resourceStates st) r)"
  by (simp add: statesAgree_def del: mset_filter)

lemma statesAgree_set:
  "statesAgree st \<Longrightarrow>
   set (assignedTo (resourceStates st) r) = set (filter (\<lambda>a. a_resource a = r) (allAssignments st))"
  by (rule mset_eq_setD [OF statesAgreeD [symmetric]])

lemma statesAgree_step:
  assumes "loopBody dp nz pm mx st = Inr st'" "statesAgree st"
  shows "statesAgree st'"
proof -
  from assms(1) obtain sel nextOp pl rs where
    rs: "map_of (resourceStates st) (pl_resource pl) = Some rs" and
    all: "allAssignments st' = allAssignments st @ [mkAssignment nextOp pl]" and
    rst: "resourceStates st' = AList.update (pl_resource pl)
               (updateResourceState rs (mkAssignment nextOp pl)) (resourceStates st)"
    by (rule loopBody_step)
  have res: "a_resource (mkAssignment nextOp pl) = pl_resource pl" by (simp add: mkAssignment_def)
  have "mset (filter (\<lambda>a. a_resource a = r) (allAssignments st')) = mset (assignedTo (resourceStates st') r)" for r
  proof (cases "r = pl_resource pl")
    case True
    from statesAgreeD [OF assms(2), of r]
    have "mset (filter (\<lambda>a. a_resource a = r) (allAssignments st)) = mset (rs_assignments rs)"
      using rs True by (simp add: assignedTo_def del: mset_filter)
    then show ?thesis using True res
      by (simp add: all rst assignedTo_def update_conv' updateResourceState_def del: mset_filter)
  next
    case False
    from statesAgreeD [OF assms(2), of r]
    have "mset (filter (\<lambda>a. a_resource a = r) (allAssignments st)) = mset (assignedTo (resourceStates st) r)" .
    then show ?thesis using False res
      by (simp add: all rst assignedTo_def update_conv' del: mset_filter)
  qed
  then show ?thesis by (simp add: statesAgree_def del: mset_filter)
qed

lemma statesAgree_reach:
  "loopReaches dp nz pm mx st0 s \<Longrightarrow> statesAgree st0 \<Longrightarrow> statesAgree s"
  by (induction rule: loopReaches.induct) (auto intro: statesAgree_step)

lemma initial_statesAgree: "statesAgree (initialState nz)"
proof -
  have "assignedTo (map (\<lambda>rid. (rid, \<lparr>lastFamily = None, rs_assignments = []\<rparr>)) ks) r = []" for ks r
    by (induction ks) (auto simp: assignedTo_def)
  then show ?thesis by (simp add: statesAgree_def initialState_def del: map_map)
qed

lemma validateNoOverlap_None:
  "validateNoOverlap rs = None \<Longrightarrow> (r, s) \<in> set rs \<Longrightarrow>
   firstOverlap (sort_by (\<lambda>a b. a_start a - a_start b) (rs_assignments s)) = None"
  by (induction rs rule: validateNoOverlap.induct) (auto split: option.splits)

lemma firstOverlap_None:
  "firstOverlap xs = None \<Longrightarrow> successively (\<lambda>p n. a_end p \<le> a_start n) xs"
  by (induction xs rule: firstOverlap.induct) (auto split: if_splits)

lemma transp_follows: "transp follows"
  by (auto simp: transp_def follows_def)

lemma sorted_wrt_follows_distinct: "sorted_wrt follows xs \<Longrightarrow> distinct xs"
  by (induction xs) (auto simp: follows_def)

lemma sorted_wrt_either:
  "sorted_wrt P xs \<Longrightarrow> a \<in> set xs \<Longrightarrow> b \<in> set xs \<Longrightarrow> a \<noteq> b \<Longrightarrow> P a b \<or> P b a"
  by (induction xs) auto

lemma distinct_by_class:
  "(\<And>r. distinct (filter (\<lambda>a. f a = r) xs)) \<Longrightarrow> distinct xs"
proof (induction xs)
  case Nil
  show ?case by simp
next
  case (Cons x xs)
  have "distinct (filter (\<lambda>a. f a = r) xs)" for r
    using Cons.prems [of r] by (simp split: if_splits)
  then have "distinct xs" by (rule Cons.IH)
  moreover have "x \<notin> set xs" using Cons.prems [of "f x"] by simp
  ultimately show ?case by simp
qed

lemma validated_resource:
  assumes v: "validateNoOverlap (resourceStates st) = None"
    and ag: "statesAgree st" and pd: "poolDurations 1 st"
  shows "sorted_wrt follows (sort_key a_start (assignedTo (resourceStates st) r))"
proof (cases "map_of (resourceStates st) r")
  case None
  then show ?thesis by (simp add: assignedTo_def)
next
  case (Some s)
  then have "(r, s) \<in> set (resourceStates st)" by (rule map_of_SomeD)
  from firstOverlap_None [OF validateNoOverlap_None [OF v this]]
  have su: "successively (\<lambda>p n. a_end p \<le> a_start n) (sort_key a_start (rs_assignments s))"
    by (simp add: sort_by_key)
  have "set (rs_assignments s) = set (filter (\<lambda>a. a_resource a = r) (allAssignments st))"
    using statesAgree_set [OF ag, of r] Some by (simp add: assignedTo_def)
  then have wf: "a_start a < a_end a" if "a \<in> set (rs_assignments s)" for a
    using that pd by (auto simp: poolDurations_def)
  have "successively follows (sort_key a_start (rs_assignments s))"
    by (rule successively_mono [OF su]) (auto simp: follows_def wf)
  then show ?thesis using Some
    by (simp add: assignedTo_def successively_conv_sorted_wrt [OF transp_follows])
qed

text \<open>
  C3. In every successful schedule of an input whose durations are positive, any two
  distinct assignments (two positions of the output) on the same resource have
  non-overlapping half-open intervals. The final validation of \<open>schedule\<close> is what
  guarantees it.
\<close>

theorem schedule_no_overlap:
  assumes "schedule deadlinePassed input = SuccessOutput v out k"
    and "\<forall>p\<in>set (products input). \<forall>op\<in>set (p_route p). 0 < duration_minutes op"
  shows "\<forall>i<length out. \<forall>j<length out.
           i \<noteq> j \<and> out_resource (out ! i) = out_resource (out ! j) \<longrightarrow>
           \<not> doIntervalsOverlap \<lparr>i_start = out_start (out ! i), i_end = out_end (out ! i)\<rparr>
                                 \<lparr>i_start = out_start (out ! j), i_end = out_end (out ! j)\<rparr>"
proof -
  from schedule_Success [OF assms(1)] show ?thesis
  proof
    assume "out = []"
    then show ?thesis by simp
  next
    assume "\<exists>st. runLoop deadlinePassed input = Inr st \<and> validateNoOverlap (resourceStates st) = None \<and>
            out = map outputAssignment (sort_by (\<lambda>a b. a_start a - a_start b) (allAssignments st))"
    then obtain st where run: "runLoop deadlinePassed input = Inr st"
      and val: "validateNoOverlap (resourceStates st) = None"
      and out: "out = map outputAssignment (sort_key a_start (allAssignments st))"
      by (auto simp: sort_by_key)
    let ?all = "allAssignments st"
    let ?ys = "sort_key a_start ?all"
    from runLoop_Inr [OF run] have reach:
      "loopReaches deadlinePassed (normalizeInput input) (productsMapOf (n_products (normalizeInput input)))
         (length (buildOperationsList (n_products (normalizeInput input))) * 5)
         (initialState (normalizeInput input)) st" by simp
    have "\<forall>p\<in>set (products input). \<forall>op\<in>set (p_route p). 1 \<le> duration_minutes op"
      using assms(2) by force
    from poolDurations_reach [OF reach initial_poolDurations [OF this]]
    have pd: "poolDurations 1 st" .
    from statesAgree_reach [OF reach initial_statesAgree] have ag: "statesAgree st" .
    note sw = validated_resource [OF val ag pd]
    have cls: "distinct (filter (\<lambda>a. a_resource a = r) ?all)" for r
    proof -
      from sorted_wrt_follows_distinct [OF sw [of r]]
      have "distinct (assignedTo (resourceStates st) r)" by simp
      then show ?thesis
        by (simp only: mset_eq_imp_distinct_iff [OF statesAgreeD [OF ag, of r]])
    qed
    then have "distinct ?all" by (rule distinct_by_class)
    then have dys: "distinct ?ys" by simp
    show ?thesis
    proof (intro allI impI, elim conjE)
      fix i j
      assume i: "i < length out" and j: "j < length out" and ij: "i \<noteq> j"
        and r: "out_resource (out ! i) = out_resource (out ! j)"
      let ?a = "?ys ! i" and ?b = "?ys ! j"
      from i j have li: "i < length ?ys" and lj: "j < length ?ys" by (simp_all add: out)
      from dys li lj ij have ne: "?a \<noteq> ?b" by (simp add: nth_eq_iff_index_eq)
      from li lj have ia: "?a \<in> set ?all" and ib: "?b \<in> set ?all"
        using nth_mem [of i ?ys] nth_mem [of j ?ys] by simp_all
      from r li lj have rr: "a_resource ?b = a_resource ?a"
        by (simp add: out outputAssignment_def)
      let ?Z = "sort_key a_start (assignedTo (resourceStates st) (a_resource ?a))"
      have "set (assignedTo (resourceStates st) (a_resource ?a)) =
            set (filter (\<lambda>a. a_resource a = a_resource ?a) ?all)"
        by (rule statesAgree_set [OF ag])
      with ia ib rr have "?a \<in> set ?Z" "?b \<in> set ?Z" by simp_all
      from sorted_wrt_either [OF sw this ne] have "follows ?a ?b \<or> follows ?b ?a" .
      then have "\<not> (a_start ?a < a_end ?b \<and> a_start ?b < a_end ?a)"
        by (auto simp: follows_def)
      then show "\<not> doIntervalsOverlap \<lparr>i_start = out_start (out ! i), i_end = out_end (out ! i)\<rparr>
                                 \<lparr>i_start = out_start (out ! j), i_end = out_end (out ! j)\<rparr>"
        using li lj by (simp add: doIntervalsOverlap_def out outputAssignment_def)
    qed
  qed
qed

section \<open>Failure detail\<close>

lemma loopReaches_pool:
  "loopReaches dp nz pm mx st0 s \<Longrightarrow>
   \<forall>v\<in>set (unscheduled s). \<exists>u\<in>set (unscheduled st0). sameOp u v"
proof (induction rule: loopReaches.induct)
  case start
  show ?case by (blast intro: sameOp_refl)
next
  case (step s s')
  from step.hyps(3) obtain sel nextOp and pl :: Placement and rs where
    sel: "sel \<in> set (unscheduled s)" and same: "sameOp sel nextOp" and
    "map_of (resourceStates s) (pl_resource pl) = Some rs" and
    pool: "unscheduled s' = advancePool sel nextOp (pl_end pl) (unscheduled s)"
    by (rule loopBody_step)
  show ?case
  proof
    fix v assume "v \<in> set (unscheduled s')"
    with pool advancePool_same [OF _ sel same] obtain u where
      u: "u \<in> set (unscheduled s)" and uv: "sameOp u v" by metis
    from step.IH u obtain u0 where "u0 \<in> set (unscheduled st0)" "sameOp u0 u" by blast
    with uv show "\<exists>u\<in>set (unscheduled st0). sameOp u v" by (blast intro: sameOp_trans)
  qed
qed






section \<open>Priority selection\<close>











section \<open>Precedence\<close>












section \<open>The lookups of the driving loop\<close>









lemma map_of_productsMap_fold:
  "map_of (fold (\<lambda>p m. AList.update (np_id p) p m) prods m0) k \<noteq> None \<longleftrightarrow>
   k \<in> np_id ` set prods \<or> map_of m0 k \<noteq> None"
  by (induction prods arbitrary: m0) (auto simp: update_conv')

lemma pool_products_known:
  assumes "loopReaches dp (normalizeInput input) pm mx (initialState (normalizeInput input)) s"
    and "u \<in> set (unscheduled s)"
  shows "map_of (productsMapOf (n_products (normalizeInput input))) (productId u) \<noteq> None"
proof -
  from loopReaches_pool [OF assms(1)] assms(2) obtain u0 where
    u0: "u0 \<in> set (unscheduled (initialState (normalizeInput input)))" and s: "sameOp u0 u" by blast
  then have "u0 \<in> set (buildOperationsList (n_products (normalizeInput input)))"
    by (simp add: initialState_def)
  from buildOperationsList_elem [OF this] obtain p where
    "p \<in> set (n_products (normalizeInput input))" "productId u0 = np_id p" by blast
  with sameOp_fields [OF s] have "productId u \<in> np_id ` set (n_products (normalizeInput input))"
    by simp
  then show ?thesis
    unfolding productsMapOf_def by (simp only: map_of_productsMap_fold simp_thms)
qed


section \<open>The results at concrete inputs\<close>

lemma splitCalendar_result:
  "schedule (\<lambda>_. False) splitCalendarInput =
     SuccessOutput ''1.0.0''
       [\<lparr>out_product = ''P1'', out_operation = ''fill'', out_resource = ''R1'',
         out_start = 0, out_end = 50\<rparr>,
        \<lparr>out_product = ''P2'', out_operation = ''fill'', out_resource = ''R1'',
         out_start = 50, out_end = 110\<rparr>]
       \<lparr>tardiness_minutes = 0, changeovers = 0, makespan_minutes = 110,
        utilization = [(''R1'', 55)], on_time_jobs = 2, total_jobs = 2\<rparr>"
  by code_simp

lemma splitCalendar_durations:
  "\<forall>p\<in>set (products splitCalendarInput). \<forall>op\<in>set (p_route p). 0 < duration_minutes op"
  by (simp add: splitCalendarInput_def)

theorem schedule_within_horizon_witness:
  "0 \<le> out_start \<lparr>out_product = ''P2'', out_operation = ''fill'', out_resource = ''R1'',
         out_start = 50, out_end = 110\<rparr> \<and>
   out_end \<lparr>out_product = ''P2'', out_operation = ''fill'', out_resource = ''R1'',
         out_start = 50, out_end = 110\<rparr> \<le> horizon_end splitCalendarInput"
proof -
  have d: "\<forall>p\<in>set (products splitCalendarInput). \<forall>op\<in>set (p_route p). 0 \<le> duration_minutes op"
    by (simp add: splitCalendarInput_def)
  from schedule_within_horizon [OF splitCalendar_result d]
  show ?thesis by simp
qed

lemma splitCalendar_first_iteration:
  "case loopBody (\<lambda>_. False) (normalizeInput splitCalendarInput)
          (productsMapOf (n_products (normalizeInput splitCalendarInput)))
          (length (buildOperationsList (n_products (normalizeInput splitCalendarInput))) * 5)
          (initialState (normalizeInput splitCalendarInput)) of
     Inl r \<Rightarrow> False
   | Inr s \<Rightarrow> True"
  by code_simp

lemma splitCalendar_operations:
  "length (buildOperationsList (n_products (normalizeInput splitCalendarInput))) = 2 \<and>
   unscheduled (initialState (normalizeInput splitCalendarInput)) \<noteq> []"
  by code_simp

theorem driving_loop_progress_witness:
  "case loopBody (\<lambda>_. False) (normalizeInput splitCalendarInput)
          (productsMapOf (n_products (normalizeInput splitCalendarInput))) 10
          (initialState (normalizeInput splitCalendarInput)) of
     Inl r \<Rightarrow> False
   | Inr s \<Rightarrow>
       Suc (length (unscheduled s)) = length (unscheduled (initialState (normalizeInput splitCalendarInput))) \<and>
       iteration s + length (unscheduled s) = 2 \<and> iteration s \<le> 10"
proof -
  let ?nz = "normalizeInput splitCalendarInput"
  let ?pm = "productsMapOf (n_products ?nz)"
  let ?N = "length (buildOperationsList (n_products ?nz))"
  have N: "?N = 2" and ne: "unscheduled (initialState ?nz) \<noteq> []"
    using splitCalendar_operations by simp_all
  from splitCalendar_first_iteration obtain s where
    b: "loopBody (\<lambda>_. False) ?nz ?pm (?N * 5) (initialState ?nz) = Inr s"
    by (auto split: sum.splits)
  have r: "loopReaches (\<lambda>_. False) ?nz ?pm (?N * 5) (initialState ?nz) s"
    by (rule loopReaches.step [OF loopReaches.start ne b])
  from driving_loop_progress [of "\<lambda>_. False" ?nz ?pm "?N * 5" "initialState ?nz" s splitCalendarInput s "[]" "[]"] b r
  have "Suc (length (unscheduled s)) = length (unscheduled (initialState ?nz))"
    "iteration s + length (unscheduled s) = ?N" "iteration s \<le> ?N * 5"
    by blast+
  with b show ?thesis unfolding N by simp
qed

theorem schedule_no_overlap_witness:
  "\<not> doIntervalsOverlap \<lparr>i_start = 0, i_end = 50\<rparr> \<lparr>i_start = 50, i_end = 110\<rparr>"
proof -
  note t = schedule_no_overlap [OF splitCalendar_result splitCalendar_durations, rule_format, of 0 1]
  then show ?thesis by simp
qed




end
